theory Spec2Isabelle
  imports Complex_Main "HOL-Library.Word" "HOL-Library.Log_Nat"
begin

section \<open>Data model\<close>

text \<open>
  The module \<^verbatim>\<open>utils/audio.ts\<close> works on the Web Audio type \<^verbatim>\<open>AudioBuffer\<close>: a sample
  rate, a frame count (the attribute \<^verbatim>\<open>length\<close>) and one \<^verbatim>\<open>Float32Array\<close> per channel.
  JavaScript numbers are modelled by exact numbers: sample indices and lengths by
  \<open>nat\<close> and \<open>int\<close>, sample values and times in seconds by \<open>real\<close>. The rounding of
  IEEE-754 doubles is modelled where a result depends on it, in the conversion of a time
  to a sample index by the gap removal.
\<close>

datatype error = IndexSizeError | NotSupportedError | RangeError

record AudioBuffer =
  sampleRate :: nat
  length_ab :: nat
  channelData :: "real list list"

definition numberOfChannels :: "AudioBuffer \<Rightarrow> nat" where
  "numberOfChannels b = length (channelData b)"

definition duration :: "AudioBuffer \<Rightarrow> real" where
  "duration b = real (length_ab b) / real (sampleRate b)"

text \<open>
  The invariant of the data model: at least one channel, a positive sample rate, and
  \<^verbatim>\<open>length\<close> samples in every channel.
\<close>

definition valid_buffer :: "AudioBuffer \<Rightarrow> bool" where
  "valid_buffer b \<longleftrightarrow>
     0 < sampleRate b \<and> channelData b \<noteq> [] \<and>
     list_all (\<lambda>ch. length ch = length_ab b) (channelData b)"

text \<open>
  The platform hands out no empty \<^verbatim>\<open>AudioBuffer\<close>: a buffer that exists has at least one
  frame.
\<close>

definition wf_buffer :: "AudioBuffer \<Rightarrow> bool" where
  "wf_buffer b \<longleftrightarrow> valid_buffer b \<and> 0 < length_ab b"

text \<open>\<^verbatim>\<open>buffer.getChannelData(c)\<close> raises \<^verbatim>\<open>IndexSizeError\<close> for a channel that does not exist.\<close>

definition getChannelData :: "AudioBuffer \<Rightarrow> nat \<Rightarrow> error + real list" where
  "getChannelData b c =
     (if c < numberOfChannels b then Inr (channelData b ! c) else Inl IndexSizeError)"

text \<open>A silence region \<^verbatim>\<open>{start, end}\<close>, in seconds.\<close>

record region =
  start_s :: real
  end_s :: real

section \<open>Silence detection: \<^verbatim>\<open>analyzeSilence\<close>\<close>

definition threshold :: real where
  "threshold = 0.015"

definition step :: nat where
  "step = 200"

text \<open>
  The local variables of the loop: \<^verbatim>\<open>isSilent\<close>, \<^verbatim>\<open>silenceStart\<close> and the array
  \<^verbatim>\<open>silenceRegions\<close>.
\<close>

type_synonym scan_state = "bool \<times> nat \<times> region list"

text \<open>The body of the \<^verbatim>\<open>for\<close> loop at index \<open>i\<close>.\<close>

definition visit :: "real list \<Rightarrow> nat \<Rightarrow> real \<Rightarrow> nat \<Rightarrow> scan_state \<Rightarrow> scan_state" where
  "visit rawData rate minDuration i st =
     (case st of (isSilent, silenceStart, silenceRegions) \<Rightarrow>
        let amplitude = \<bar>rawData ! i\<bar> in
        if amplitude < threshold then
          (if \<not> isSilent then (True, i, silenceRegions)
           else (isSilent, silenceStart, silenceRegions))
        else
          (if isSilent then
             (let duration = (real i - real silenceStart) / real rate in
              (False, silenceStart,
               if duration \<ge> minDuration
               then silenceRegions @
                      [\<lparr>start_s = real silenceStart / real rate, end_s = real i / real rate\<rparr>]
               else silenceRegions))
           else (isSilent, silenceStart, silenceRegions)))"

text \<open>\<^verbatim>\<open>for (let i = 0; i < rawData.length; i += step)\<close>, entered at index \<open>i\<close>.\<close>

function scan :: "real list \<Rightarrow> nat \<Rightarrow> real \<Rightarrow> nat \<Rightarrow> scan_state \<Rightarrow> scan_state" where
  "scan rawData rate minDuration i st =
     (if i < length rawData
      then scan rawData rate minDuration (i + step) (visit rawData rate minDuration i st)
      else st)"
  by pat_completeness auto
termination
  by (relation "measure (\<lambda>(rawData, rate, minDuration, i, st). length rawData - i)")
     (auto simp: step_def)

declare scan.simps [simp del]

text \<open>The check after the loop (\<^verbatim>\<open>// Check end\<close>).\<close>

definition flush :: "real list \<Rightarrow> nat \<Rightarrow> real \<Rightarrow> scan_state \<Rightarrow> region list" where
  "flush rawData rate minDuration st =
     (case st of (isSilent, silenceStart, silenceRegions) \<Rightarrow>
        if isSilent then
          (let duration = (real (length rawData) - real silenceStart) / real rate in
           if duration \<ge> minDuration
           then silenceRegions @
                  [\<lparr>start_s = real silenceStart / real rate,
                    end_s = real (length rawData) / real rate\<rparr>]
           else silenceRegions)
        else silenceRegions)"

definition analyzeSilence :: "AudioBuffer \<Rightarrow> real \<Rightarrow> error + region list" where
  "analyzeSilence buffer minDuration =
     (case getChannelData buffer 0 of
        Inl e \<Rightarrow> Inl e
      | Inr rawData \<Rightarrow>
          Inr (flush rawData (sampleRate buffer) minDuration
                 (scan rawData (sampleRate buffer) minDuration 0 (False, 0, []))))"

text \<open>A buffer for demonstrations: 601 frames at 8000 Hz, one channel.\<close>

definition demo_buffer :: AudioBuffer where
  "demo_buffer =
     \<lparr>sampleRate = 8000, length_ab = 601,
      channelData = [replicate 200 0 @ replicate 200 0.5 @ replicate 201 0]\<rparr>"

subsection \<open>Invariant of the scan\<close>


definition aligned :: "nat \<Rightarrow> real \<Rightarrow> nat \<Rightarrow> nat \<Rightarrow> region \<Rightarrow> bool" where
  "aligned rate minDuration len bound r \<longleftrightarrow>
     (\<exists>k m. k < m \<and> m * step < len \<and> m * step \<le> bound \<and>
            start_s r = real (k * step) / real rate \<and>
            end_s r = real (m * step) / real rate \<and>
            minDuration \<le> (real (m * step) - real (k * step)) / real rate)"

definition scan_inv :: "nat \<Rightarrow> real \<Rightarrow> nat \<Rightarrow> nat \<Rightarrow> scan_state \<Rightarrow> bool" where
  "scan_inv rate minDuration len i st \<longleftrightarrow>
     (case st of (isSilent, silenceStart, silenceRegions) \<Rightarrow>
        step dvd i \<and>
        (isSilent \<longrightarrow> silenceStart < i \<and> silenceStart < len \<and> step dvd silenceStart) \<and>
        sorted_wrt (\<lambda>a b. end_s a \<le> start_s b) silenceRegions \<and>
        (\<forall>r \<in> set silenceRegions.
            aligned rate minDuration len (if isSilent then silenceStart else i) r))"

definition region_ok :: "AudioBuffer \<Rightarrow> real \<Rightarrow> region \<Rightarrow> bool" where
  "region_ok b minDuration r \<longleftrightarrow>
     0 \<le> start_s r \<and> end_s r \<le> duration b \<and> start_s r < end_s r \<and>
     minDuration \<le> end_s r - start_s r"

definition boundary_ok :: "AudioBuffer \<Rightarrow> bool \<Rightarrow> region \<Rightarrow> bool" where
  "boundary_ok b final r \<longleftrightarrow>
     (\<exists>k. start_s r = real (k * 200) / real (sampleRate b) \<and>
        ((\<exists>m>k. end_s r = real (m * 200) / real (sampleRate b)) \<or>
         (final \<and> end_s r = real (length_ab b) / real (sampleRate b))))"

definition silent_pending :: "nat \<Rightarrow> nat \<Rightarrow> scan_state \<Rightarrow> bool" where
  "silent_pending len i st \<longleftrightarrow>
     (case st of (isSilent, silenceStart, silenceRegions) \<Rightarrow>
        isSilent \<longrightarrow> silenceStart \<le> i \<and> silenceStart \<le> len)"


subsection \<open>The detector as a two-state machine\<close>

text \<open>
  The detector as its description states it, independently of the loop above: the states
  \<open>Sounding\<close> and \<open>Silent\<close> (which carries \<open>silenceStart\<close>), the stream of the visited
  indices, one transition per visited sample, and the flush at the end of the stream.
\<close>


datatype detector_state = Sounding | Silent nat

definition visited :: "nat \<Rightarrow> nat list" where
  "visited len = filter (\<lambda>i. step dvd i) [0..<len]"

definition emit :: "nat \<Rightarrow> real \<Rightarrow> nat \<Rightarrow> nat \<Rightarrow> region list" where
  "emit rate minDuration silenceStart boundary =
     (if (real boundary - real silenceStart) / real rate \<ge> minDuration
      then [\<lparr>start_s = real silenceStart / real rate, end_s = real boundary / real rate\<rparr>]
      else [])"

fun transition ::
  "real list \<Rightarrow> nat \<Rightarrow> real \<Rightarrow> detector_state \<times> region list \<Rightarrow> nat \<Rightarrow>
   detector_state \<times> region list" where
  "transition samples rate minDuration (Sounding, out) currentIndex =
     (if \<bar>samples ! currentIndex\<bar> < threshold then (Silent currentIndex, out)
      else (Sounding, out))"
| "transition samples rate minDuration (Silent silenceStart, out) currentIndex =
     (if \<bar>samples ! currentIndex\<bar> < threshold then (Silent silenceStart, out)
      else (Sounding, out @ emit rate minDuration silenceStart currentIndex))"

fun end_of_stream :: "nat \<Rightarrow> real \<Rightarrow> nat \<Rightarrow> detector_state \<times> region list \<Rightarrow> region list" where
  "end_of_stream rate minDuration len (Sounding, out) = out"
| "end_of_stream rate minDuration len (Silent silenceStart, out) =
     out @ emit rate minDuration silenceStart len"

definition detectSilence :: "AudioBuffer \<Rightarrow> real \<Rightarrow> region list" where
  "detectSilence b minDuration =
     end_of_stream (sampleRate b) minDuration (length_ab b)
       (foldl (transition (channelData b ! 0) (sampleRate b) minDuration) (Sounding, [])
          (visited (length_ab b)))"

definition machine_state :: "scan_state \<Rightarrow> detector_state \<times> region list" where
  "machine_state st =
     (case st of (isSilent, silenceStart, silenceRegions) \<Rightarrow>
        (if isSilent then Silent silenceStart else Sounding, silenceRegions))"


section \<open>Double arithmetic in the gap removal\<close>

text \<open>
  The gap removal turns a time into a sample index with \<^verbatim>\<open>Math.floor(time * sampleRate)\<close>,
  and the product is an IEEE-754 double: the exact product rounded to 53 significant
  bits, ties to even. The floor depends on that rounding (the double nearest to
  \<open>1800 / 44100\<close> times \<open>44100\<close> is the double just below \<open>1800\<close>), so it is modelled.
  A time of the model stands for the double nearest to it. Overflow, subnormal numbers
  and \<^verbatim>\<open>NaN\<close> are not modelled: times in seconds and sample positions are far from them.
\<close>

text \<open>The exponent \<open>e\<close> of a number other than 0: \<open>2^e \<le> |x| < 2^(e+1)\<close>.\<close>

definition binary_exponent :: "real \<Rightarrow> int" where
  "binary_exponent x =
     (if 1 \<le> \<bar>x\<bar> then bitlen \<lfloor>\<bar>x\<bar>\<rfloor> - 1 else - bitlen (\<lceil>1 / \<bar>x\<bar>\<rceil> - 1))"

text \<open>\<open>x * 2^e\<close> for an integer \<open>e\<close>.\<close>

definition scale2 :: "real \<Rightarrow> int \<Rightarrow> real" where
  "scale2 x e = (if 0 \<le> e then x * 2 ^ nat e else x / 2 ^ nat (- e))"

text \<open>Rounding to the nearest integer, a tie to the even one.\<close>

definition round_even :: "real \<Rightarrow> int" where
  "round_even x =
     (let f = \<lfloor>x\<rfloor>; d = x - of_int f
      in if d < 1 / 2 then f else if 1 / 2 < d then f + 1 else if even f then f else f + 1)"

text \<open>The double nearest to \<open>x\<close>: \<open>x\<close> rounded to a multiple of \<open>2^(e - 52)\<close>.\<close>

definition round_double :: "real \<Rightarrow> real" where
  "round_double x =
     (if x = 0 then 0
      else let e = binary_exponent x - 52
           in scale2 (of_int (round_even (scale2 x (- e)))) e)"

text \<open>The product of two numbers held as doubles.\<close>

definition double_times :: "real \<Rightarrow> real \<Rightarrow> real" where
  "double_times x y = round_double (round_double x * round_double y)"

text \<open>\<^verbatim>\<open>Math.floor(time * sampleRate)\<close>\<close>

definition sample_index :: "nat \<Rightarrow> real \<Rightarrow> int" where
  "sample_index rate t = \<lfloor>double_times t (real rate)\<rfloor>"

section \<open>Gap removal: \<^verbatim>\<open>createProcessedBuffer\<close> and \<^verbatim>\<open>processAudio\<close>\<close>

subsection \<open>Platform operations\<close>

text \<open>
  \<^verbatim>\<open>TypedArray.prototype.subarray(begin, end)\<close>: a negative index counts from the end of the
  array, and both indices are clamped to \<open>[0, length]\<close>.
\<close>

definition relative_index :: "int \<Rightarrow> nat \<Rightarrow> nat" where
  "relative_index k len = (if k < 0 then nat (max (int len + k) 0) else nat (min k (int len)))"

definition subarray :: "real list \<Rightarrow> int \<Rightarrow> int \<Rightarrow> real list" where
  "subarray a begin_i end_i =
     (let beginIndex = relative_index begin_i (length a);
          endIndex = relative_index end_i (length a)
      in take (endIndex - beginIndex) (drop beginIndex a))"

text \<open>
  \<^verbatim>\<open>TypedArray.prototype.set(source, offset)\<close> raises \<^verbatim>\<open>RangeError\<close> when the source does not
  fit into the target at the offset.
\<close>

definition set_at :: "real list \<Rightarrow> real list \<Rightarrow> int \<Rightarrow> error + real list" where
  "set_at target source offset =
     (if offset < 0 \<or> int (length target) < offset + int (length source) then Inl RangeError
      else Inr (take (nat offset) target @ source @
                drop (nat offset + length source) target))"

text \<open>
  Both ways of allocating an \<^verbatim>\<open>AudioBuffer\<close>, \<^verbatim>\<open>context.createBuffer(channels, length, rate)\<close>
  and \<^verbatim>\<open>new AudioBuffer({length, numberOfChannels, sampleRate})\<close>, return a buffer filled with
  zeros. The Web Audio API requires at least one channel, at least one frame and a
  positive rate, and has both raise \<^verbatim>\<open>NotSupportedError\<close> otherwise. The upper limits of
  an implementation (channel count, rate) are not modelled: the functions below ask for
  the channel count and the rate of a buffer that exists.
\<close>

record AudioContext =
  context_sampleRate :: nat

definition createBuffer :: "AudioContext \<Rightarrow> nat \<Rightarrow> int \<Rightarrow> nat \<Rightarrow> error + AudioBuffer" where
  "createBuffer context channels len rate =
     (if channels = 0 \<or> len \<le> 0 \<or> rate = 0 then Inl NotSupportedError
      else Inr \<lparr>sampleRate = rate, length_ab = nat len,
                channelData = replicate channels (replicate (nat len) 0)\<rparr>)"

record AudioBufferOptions =
  opt_length :: int
  opt_numberOfChannels :: nat
  opt_sampleRate :: nat

definition new_AudioBuffer :: "AudioBufferOptions \<Rightarrow> error + AudioBuffer" where
  "new_AudioBuffer options =
     (if opt_numberOfChannels options = 0 \<or> opt_length options \<le> 0 \<or> opt_sampleRate options = 0
      then Inl NotSupportedError
      else Inr \<lparr>sampleRate = opt_sampleRate options, length_ab = nat (opt_length options),
                channelData = replicate (opt_numberOfChannels options)
                                (replicate (nat (opt_length options)) 0)\<rparr>)"

subsection \<open>Keep regions\<close>

text \<open>
  A keep region \<^verbatim>\<open>{start, end}\<close> in sample indices is the pair \<open>(start, end)\<close>. The two
  functions compute \<^verbatim>\<open>keepRegions\<close> and \<^verbatim>\<open>newLength\<close> with the same statements
  (lines 141 to 158 and 187 to 204 of the module), which are modelled once.
\<close>

type_synonym keep = "int \<times> int"

text \<open>\<^verbatim>\<open>for (const region of sortedSilence)\<close>, with the variables \<^verbatim>\<open>cursor\<close> and \<^verbatim>\<open>keepRegions\<close>.\<close>

fun keep_loop :: "nat \<Rightarrow> region list \<Rightarrow> int \<Rightarrow> keep list \<Rightarrow> int \<times> keep list" where
  "keep_loop rate [] cursor keepRegions = (cursor, keepRegions)"
| "keep_loop rate (region # rest) cursor keepRegions =
     (let regionStartSample = sample_index rate (start_s region);
          regionEndSample = sample_index rate (end_s region)
      in keep_loop rate rest regionEndSample
           (if cursor < regionStartSample then keepRegions @ [(cursor, regionStartSample)]
            else keepRegions))"

text \<open>The loop over the sorted regions, followed by the trailing keep region.\<close>

definition keep_walk :: "AudioBuffer \<Rightarrow> region list \<Rightarrow> keep list" where
  "keep_walk originalBuffer sortedSilence =
     (let totalSamples = int (length_ab originalBuffer)
      in case keep_loop (sampleRate originalBuffer) sortedSilence 0 [] of
           (cursor, keepRegions) \<Rightarrow>
             if cursor < totalSamples then keepRegions @ [(cursor, totalSamples)]
             else keepRegions)"

text \<open>
  \<^verbatim>\<open>[...silenceRegions].sort((a, b) => a.start - b.start)\<close> is a stable sort by \<^verbatim>\<open>start\<close>, as
  \<open>sort_key\<close> is.
\<close>

definition keep_regions :: "AudioBuffer \<Rightarrow> region list \<Rightarrow> keep list" where
  "keep_regions originalBuffer silenceRegions =
     (let sortedSilence = sort_key start_s silenceRegions
      in keep_walk originalBuffer sortedSilence)"

text \<open>\<^verbatim>\<open>keepRegions.reduce((acc, reg) => acc + (reg.end - reg.start), 0)\<close>\<close>

definition newLength :: "keep list \<Rightarrow> int" where
  "newLength keepRegions = foldl (\<lambda>acc reg. acc + (snd reg - fst reg)) 0 keepRegions"

subsection \<open>Copying the kept samples\<close>

text \<open>\<^verbatim>\<open>for (const reg of keepRegions)\<close>, with the variables \<^verbatim>\<open>pointer\<close> and the array \<^verbatim>\<open>newData\<close>.\<close>

fun copy_regions :: "real list \<Rightarrow> keep list \<Rightarrow> int \<Rightarrow> real list \<Rightarrow> error + real list" where
  "copy_regions oldData [] pointer newData = Inr newData"
| "copy_regions oldData (reg # rest) pointer newData =
     (let len = snd reg - fst reg;
          chunk = subarray oldData (fst reg) (snd reg)
      in case set_at newData chunk pointer of
           Inl e \<Rightarrow> Inl e
         | Inr newData' \<Rightarrow> copy_regions oldData rest (pointer + len) newData')"

text \<open>\<^verbatim>\<open>for (let c = 0; c < channels; c++)\<close>, entered at channel \<open>c\<close>.\<close>

function copy_channels ::
  "AudioBuffer \<Rightarrow> keep list \<Rightarrow> nat \<Rightarrow> nat \<Rightarrow> AudioBuffer \<Rightarrow> error + AudioBuffer" where
  "copy_channels originalBuffer keepRegions channels c newBuffer =
     (if c < channels then
        (case getChannelData originalBuffer c of
           Inl e \<Rightarrow> Inl e
         | Inr oldData \<Rightarrow>
            (case getChannelData newBuffer c of
               Inl e \<Rightarrow> Inl e
             | Inr newData \<Rightarrow>
                (case copy_regions oldData keepRegions 0 newData of
                   Inl e \<Rightarrow> Inl e
                 | Inr newData' \<Rightarrow>
                     copy_channels originalBuffer keepRegions channels (c + 1)
                       (newBuffer\<lparr>channelData := (channelData newBuffer)[c := newData']\<rparr>))))
      else Inr newBuffer)"
  by pat_completeness auto
termination
  by (relation "measure (\<lambda>(originalBuffer, keepRegions, channels, c, newBuffer). channels - c)")
     auto

declare copy_channels.simps [simp del]

subsection \<open>The two reconstruction functions\<close>

definition createProcessedBuffer ::
  "AudioBuffer \<Rightarrow> region list \<Rightarrow> AudioContext \<Rightarrow> error + AudioBuffer" where
  "createProcessedBuffer originalBuffer silenceRegions context =
     (let rate = sampleRate originalBuffer;
          channels = numberOfChannels originalBuffer;
          keeps = keep_regions originalBuffer silenceRegions
      in case createBuffer context channels (newLength keeps) rate of
           Inl e \<Rightarrow> Inl e
         | Inr newBuffer \<Rightarrow> copy_channels originalBuffer keeps channels 0 newBuffer)"

text \<open>
  \<^verbatim>\<open>processAudio\<close> up to its last statement: the buffer \<^verbatim>\<open>newBuffer\<close> that is handed to
  \<^verbatim>\<open>bufferToWav\<close>.
\<close>

definition processAudio_newBuffer :: "AudioBuffer \<Rightarrow> region list \<Rightarrow> error + AudioBuffer" where
  "processAudio_newBuffer originalBuffer silenceRegions =
     (let rate = sampleRate originalBuffer;
          channels = numberOfChannels originalBuffer;
          keeps = keep_regions originalBuffer silenceRegions
      in case new_AudioBuffer
                \<lparr>opt_length = newLength keeps, opt_numberOfChannels = channels,
                 opt_sampleRate = rate\<rparr> of
           Inl e \<Rightarrow> Inl e
         | Inr newBuffer \<Rightarrow> copy_channels originalBuffer keeps channels 0 newBuffer)"

subsection \<open>The reconstructed buffer as the claims describe it\<close>

text \<open>
  The keep intervals as the description states them, without the loop: the regions are
  sorted by start and their boundaries converted to sample indices; the cursor stands at
  0 before the first region and at the end index of a region after it; a region whose
  start index lies beyond the cursor before it gives the interval from that cursor to the
  start index; and the cursor after the last region, if it is below the length, gives
  the trailing interval.
\<close>

definition keep_intervals :: "AudioBuffer \<Rightarrow> region list \<Rightarrow> keep list" where
  "keep_intervals b rs =
     (let sorted = sort_key start_s rs;
          starts = map (\<lambda>r. sample_index (sampleRate b) (start_s r)) sorted;
          ends = map (\<lambda>r. sample_index (sampleRate b) (end_s r)) sorted;
          cursors = 0 # ends
      in filter (\<lambda>(cursor, regionStart). cursor < regionStart) (zip cursors starts) @
         (if last cursors < int (length_ab b) then [(last cursors, int (length_ab b))]
          else []))"

text \<open>
  The samples of a channel over the keep interval \<open>[start, end)\<close>, and the buffer made of
  the concatenation of these slices, channel by channel.
\<close>


definition span :: "keep \<Rightarrow> int" where
  "span reg = snd reg - fst reg"

definition samples_over :: "real list \<Rightarrow> keep \<Rightarrow> real list" where
  "samples_over ch reg = take (nat (snd reg) - nat (fst reg)) (drop (nat (fst reg)) ch)"

definition gap_removed :: "AudioBuffer \<Rightarrow> keep list \<Rightarrow> AudioBuffer" where
  "gap_removed b keeps =
     \<lparr>sampleRate = sampleRate b,
      length_ab = nat (sum_list (map span keeps)),
      channelData = map (\<lambda>ch. concat (map (samples_over ch) keeps)) (channelData b)\<rparr>"

definition keeps_within :: "nat \<Rightarrow> keep list \<Rightarrow> bool" where
  "keeps_within len keeps = list_all (\<lambda>reg. 0 \<le> fst reg \<and> snd reg \<le> int len) keeps"

definition keeps_ordered :: "keep list \<Rightarrow> bool" where
  "keeps_ordered keeps = list_all (\<lambda>reg. fst reg < snd reg) keeps"

subsection \<open>Example inputs\<close>



definition silent_second :: AudioBuffer where
  "silent_second = \<lparr>sampleRate = 8000, length_ab = 8000, channelData = [replicate 8000 0]\<rparr>"

definition silent_1001 :: AudioBuffer where
  "silent_1001 = \<lparr>sampleRate = 8000, length_ab = 1001, channelData = [replicate 1001 0]\<rparr>"

text \<open>1800 frames of silence and 200 loud frames at 44100 Hz.\<close>

definition leading_silence :: AudioBuffer where
  "leading_silence =
     \<lparr>sampleRate = 44100, length_ab = 2000,
      channelData = [replicate 1800 0 @ replicate 200 0.5]\<rparr>"

definition demo_context :: AudioContext where
  "demo_context = \<lparr>context_sampleRate = 44100\<rparr>"

section \<open>WAV encoding: \<^verbatim>\<open>bufferToWav\<close>\<close>

subsection \<open>Platform operations\<close>

type_synonym byte = "8 word"

text \<open>
  The \<^verbatim>\<open>DataView\<close> setters with \<^verbatim>\<open>littleEndian = true\<close>: the value is reduced modulo
  \<open>2^16\<close> or \<open>2^32\<close> and stored low byte first; a write beyond the end of the
  \<^verbatim>\<open>ArrayBuffer\<close> raises \<^verbatim>\<open>RangeError\<close>. \<^verbatim>\<open>setUint16\<close> and \<^verbatim>\<open>setInt16\<close> store the same
  bytes.
\<close>

definition bytes16 :: "16 word \<Rightarrow> byte list" where
  "bytes16 w = [ucast w, ucast (drop_bit 8 w)]"

definition bytes32 :: "32 word \<Rightarrow> byte list" where
  "bytes32 w = [ucast w, ucast (drop_bit 8 w), ucast (drop_bit 16 w), ucast (drop_bit 24 w)]"

definition store :: "byte list \<Rightarrow> nat \<Rightarrow> byte list \<Rightarrow> error + byte list" where
  "store view byteOffset bytes =
     (if length view < byteOffset + length bytes then Inl RangeError
      else Inr (take byteOffset view @ bytes @ drop (byteOffset + length bytes) view))"

definition view_setUint16 :: "byte list \<Rightarrow> nat \<Rightarrow> int \<Rightarrow> error + byte list" where
  "view_setUint16 view byteOffset data = store view byteOffset (bytes16 (word_of_int data))"

definition view_setInt16 :: "byte list \<Rightarrow> nat \<Rightarrow> int \<Rightarrow> error + byte list" where
  "view_setInt16 view byteOffset data = store view byteOffset (bytes16 (word_of_int data))"

definition view_setUint32 :: "byte list \<Rightarrow> nat \<Rightarrow> int \<Rightarrow> error + byte list" where
  "view_setUint32 view byteOffset data = store view byteOffset (bytes32 (word_of_int data))"

text \<open>\<^verbatim>\<open>x | 0\<close> on a finite number: truncation towards zero, then the signed 32-bit value.\<close>

definition to_int32 :: "real \<Rightarrow> int" where
  "to_int32 x = sint (word_of_int (if x < 0 then \<lceil>x\<rceil> else \<lfloor>x\<rfloor>) :: 32 word)"

subsection \<open>The encoder\<close>

text \<open>
  The variables shared by the function and its two local helpers: the view on the
  output buffer and the position \<^verbatim>\<open>pos\<close>.
\<close>

type_synonym writer = "byte list \<times> nat"

text \<open>The local helpers \<^verbatim>\<open>setUint16(data)\<close> and \<^verbatim>\<open>setUint32(data)\<close>: write at \<^verbatim>\<open>pos\<close>, advance \<^verbatim>\<open>pos\<close>.\<close>

definition setUint16 :: "int \<Rightarrow> writer \<Rightarrow> error + writer" where
  "setUint16 data w =
     (case w of (view, pos) \<Rightarrow>
        case view_setUint16 view pos data of
          Inl e \<Rightarrow> Inl e
        | Inr view' \<Rightarrow> Inr (view', pos + 2))"

definition setUint32 :: "int \<Rightarrow> writer \<Rightarrow> error + writer" where
  "setUint32 data w =
     (case w of (view, pos) \<Rightarrow>
        case view_setUint32 view pos data of
          Inl e \<Rightarrow> Inl e
        | Inr view' \<Rightarrow> Inr (view', pos + 4))"

text \<open>A sequence of statements, each of which may raise.\<close>

fun statements :: "('s \<Rightarrow> error + 's) list \<Rightarrow> 's \<Rightarrow> error + 's" where
  "statements [] s = Inr s"
| "statements (f # fs) s = (case f s of Inl e \<Rightarrow> Inl e | Inr s' \<Rightarrow> statements fs s')"

text \<open>The thirteen header writes (\<^verbatim>\<open>// write WAVE header\<close>), in the order of the source.\<close>

definition write_header :: "AudioBuffer \<Rightarrow> nat \<Rightarrow> nat \<Rightarrow> writer \<Rightarrow> error + writer" where
  "write_header abuffer numOfChan len_bytes =
     statements
       [setUint32 0x46464952,
        setUint32 (int len_bytes - 8),
        setUint32 0x45564157,
        setUint32 0x20746d66,
        setUint32 16,
        setUint16 1,
        setUint16 (int numOfChan),
        setUint32 (int (sampleRate abuffer)),
        setUint32 (int (sampleRate abuffer) * 2 * int numOfChan),
        setUint16 (int numOfChan * 2),
        setUint16 16,
        setUint32 0x61746164,
        (\<lambda>w. setUint32 (int len_bytes - int (snd w) - 4) w)]"

text \<open>
  The conversion of one sample. \<^verbatim>\<open>channels[i][pos]\<close> beyond the end of the channel is
  \<^verbatim>\<open>undefined\<close>, which the arithmetic turns into \<^verbatim>\<open>NaN\<close> and \<^verbatim>\<open>| 0\<close> into 0.
\<close>

definition read_sample :: "real list \<Rightarrow> nat \<Rightarrow> real option" where
  "read_sample channel pos = (if pos < length channel then Some (channel ! pos) else None)"

definition convert_sample :: "real option \<Rightarrow> int" where
  "convert_sample x =
     (case x of
        None \<Rightarrow> 0
      | Some v \<Rightarrow>
          (let sample = max (- 1) (min 1 v)
           in to_int32 (if 0.5 + sample < 0 then sample * 32768 else sample * 32767)))"

text \<open>
  \<^verbatim>\<open>for(i = 0; i < numOfChan; i++)\<close>, entered at channel \<open>i\<close>, with the variable \<^verbatim>\<open>offset\<close>.
\<close>

function interleave ::
  "real list list \<Rightarrow> nat \<Rightarrow> nat \<Rightarrow> nat \<Rightarrow> byte list \<times> nat \<Rightarrow> error + byte list \<times> nat" where
  "interleave channels numOfChan pos i vo =
     (if i < numOfChan then
        (case vo of (view, offset) \<Rightarrow>
           let sample = convert_sample (read_sample (channels ! i) pos)
           in case view_setInt16 view (44 + offset) sample of
                Inl e \<Rightarrow> Inl e
              | Inr view' \<Rightarrow> interleave channels numOfChan pos (i + 1) (view', offset + 2))
      else Inr vo)"
  by pat_completeness auto
termination
  by (relation "measure (\<lambda>(channels, numOfChan, pos, i, vo). numOfChan - i)") auto

declare interleave.simps [simp del]

text \<open>
  \<^verbatim>\<open>while(pos < len)\<close>. The variable \<^verbatim>\<open>pos\<close> is the one the header writes have advanced.
\<close>

function write_frames ::
  "real list list \<Rightarrow> nat \<Rightarrow> nat \<Rightarrow> nat \<Rightarrow> byte list \<times> nat \<Rightarrow> error + byte list" where
  "write_frames channels numOfChan len pos vo =
     (if pos < len then
        (case interleave channels numOfChan pos 0 vo of
           Inl e \<Rightarrow> Inl e
         | Inr vo' \<Rightarrow> write_frames channels numOfChan len (pos + 1) vo')
      else Inr (fst vo))"
  by pat_completeness auto
termination
  by (relation "measure (\<lambda>(channels, numOfChan, len, pos, vo). len - pos)") auto

declare write_frames.simps [simp del]

text \<open>The result is the content of the \<^verbatim>\<open>Blob\<close>.\<close>

definition bufferToWav :: "AudioBuffer \<Rightarrow> nat \<Rightarrow> error + byte list" where
  "bufferToWav abuffer len =
     (let numOfChan = numberOfChannels abuffer;
          len_bytes = len * numOfChan * 2 + 44;
          view = replicate len_bytes 0;
          channels = channelData abuffer
      in case write_header abuffer numOfChan len_bytes (view, 0) of
           Inl e \<Rightarrow> Inl e
         | Inr (view', pos) \<Rightarrow> write_frames channels numOfChan len pos (view', 0))"

definition processAudio :: "AudioBuffer \<Rightarrow> region list \<Rightarrow> error + byte list" where
  "processAudio originalBuffer silenceRegions =
     (case processAudio_newBuffer originalBuffer silenceRegions of
        Inl e \<Rightarrow> Inl e
      | Inr newBuffer \<Rightarrow>
          bufferToWav newBuffer
            (nat (newLength (keep_regions originalBuffer silenceRegions))))"

subsection \<open>The WAV format as the claims describe it\<close>

text \<open>
  The file as its description states it, independently of the encoder above: the fields of
  the header in order, little-endian, and then every frame from 0 to \<open>len - 1\<close> with its
  channels in order, each sample clamped, scaled, truncated towards zero and stored as a
  16-bit integer.
\<close>


definition two_frames :: AudioBuffer where
  "two_frames = \<lparr>sampleRate = 8000, length_ab = 2, channelData = [[1, - 1]]\<rparr>"

definition ascii :: "string \<Rightarrow> byte list" where
  "ascii s = map (\<lambda>c. of_nat (of_char c)) s"

definition u16 :: "nat \<Rightarrow> byte list" where
  "u16 n = bytes16 (of_nat n)"

definition u32 :: "nat \<Rightarrow> byte list" where
  "u32 n = bytes32 (of_nat n)"

definition wav_header :: "AudioBuffer \<Rightarrow> nat \<Rightarrow> byte list" where
  "wav_header b len =
     (let numChannels = numberOfChannels b;
          fileLength = 44 + len * numChannels * 2
      in ascii ''RIFF'' @ u32 (fileLength - 8) @ ascii ''WAVE'' @ ascii ''fmt '' @ u32 16 @
         u16 1 @ u16 numChannels @ u32 (sampleRate b) @ u32 (sampleRate b * 2 * numChannels) @
         u16 (numChannels * 2) @ u16 16 @ ascii ''data'' @ u32 (len * numChannels * 2))"

definition pcm16 :: "real \<Rightarrow> byte list" where
  "pcm16 v =
     (let clamped = max (- 1) (min 1 v);
          scaled = (if 0.5 + clamped < 0 then clamped * 32768 else clamped * 32767);
          truncated = (if scaled < 0 then \<lceil>scaled\<rceil> else \<lfloor>scaled\<rfloor>)
      in bytes16 (word_of_int truncated))"

definition encodeWav :: "AudioBuffer \<Rightarrow> nat \<Rightarrow> byte list" where
  "encodeWav b len =
     wav_header b len @
     concat (map (\<lambda>frame. concat (map (\<lambda>channel. pcm16 (channel ! frame)) (channelData b)))
               [0..<len])"

text \<open>The header of a WAV file of two mono frames at 8000 Hz.\<close>


definition two_frames_header :: "byte list" where
  "two_frames_header =
     [0x52, 0x49, 0x46, 0x46, 40, 0, 0, 0, 0x57, 0x41, 0x56, 0x45, 0x66, 0x6d, 0x74, 0x20,
      16, 0, 0, 0, 1, 0, 1, 0, 0x40, 0x1f, 0, 0, 0x80, 0x3e, 0, 0, 2, 0, 16, 0,
      0x64, 0x61, 0x74, 0x61, 4, 0, 0, 0]"

subsection \<open>What the encoder writes\<close>

text \<open>Replacing the elements of an array from position \<open>p\<close> on by the elements of \<open>bs\<close>.\<close>

definition overwrite :: "'a list \<Rightarrow> nat \<Rightarrow> 'a list \<Rightarrow> 'a list" where
  "overwrite view p bs = take p view @ bs @ drop (p + length bs) view"

text \<open>The two bytes of one converted sample, and the bytes of one frame of all channels.\<close>

definition sample_bytes :: "real list \<Rightarrow> nat \<Rightarrow> byte list" where
  "sample_bytes channel pos = bytes16 (word_of_int (convert_sample (read_sample channel pos)))"

definition frame_bytes :: "real list list \<Rightarrow> nat \<Rightarrow> byte list" where
  "frame_bytes channels pos = concat (map (\<lambda>channel. sample_bytes channel pos) channels)"

text \<open>The bytes of the thirteen header writes.\<close>

definition header_fields :: "AudioBuffer \<Rightarrow> nat \<Rightarrow> nat \<Rightarrow> byte list" where
  "header_fields abuffer numOfChan len_bytes =
     bytes32 0x46464952 @ bytes32 (word_of_int (int len_bytes - 8)) @ bytes32 0x45564157 @
     bytes32 0x20746d66 @ bytes32 16 @ bytes16 1 @ bytes16 (word_of_int (int numOfChan)) @
     bytes32 (word_of_int (int (sampleRate abuffer))) @
     bytes32 (word_of_int (int (sampleRate abuffer) * 2 * int numOfChan)) @
     bytes16 (word_of_int (int numOfChan * 2)) @ bytes16 16 @ bytes32 0x61746164 @
     bytes32 (word_of_int (int len_bytes - 40 - 4))"

section \<open>The operations on a store\<close>

text \<open>
  The functions above pass arrays by value. To state which storage an operation writes,
  the same statements are modelled on a store: the \<^verbatim>\<open>Float32Array\<close>s, the arrays of regions
  and the \<^verbatim>\<open>ArrayBuffer\<close>s live at addresses, \<^verbatim>\<open>getChannelData\<close> returns the address of the
  channel's array, \<^verbatim>\<open>subarray\<close> returns a view that shares the storage of its array, and
  \<^verbatim>\<open>set\<close> and \<^verbatim>\<open>sort\<close> write in place. The attributes \<^verbatim>\<open>sampleRate\<close>, \<^verbatim>\<open>length\<close> and
  \<^verbatim>\<open>numberOfChannels\<close> of an \<^verbatim>\<open>AudioBuffer\<close> are read-only on the platform, so a buffer
  object is the immutable triple of its rate, its length and the addresses of its
  channels.
\<close>

type_synonym addr = nat

record heap =
  arrays :: "addr \<rightharpoonup> real list"
  region_lists :: "addr \<rightharpoonup> region list"
  array_buffers :: "addr \<rightharpoonup> byte list"
  next_addr :: addr

record AudioBuffer_obj =
  obj_sampleRate :: nat
  obj_length :: nat
  obj_channels :: "addr list"

text \<open>Every allocated address lies below the next free one.\<close>

definition wf_heap :: "heap \<Rightarrow> bool" where
  "wf_heap h \<longleftrightarrow>
     (\<forall>a. a \<in> dom (arrays h) \<or> a \<in> dom (region_lists h) \<or> a \<in> dom (array_buffers h)
          \<longrightarrow> a < next_addr h)"

definition array_at :: "heap \<Rightarrow> addr \<Rightarrow> real list" where
  "array_at h a = (case arrays h a of None \<Rightarrow> [] | Some xs \<Rightarrow> xs)"

definition regions_at :: "heap \<Rightarrow> addr \<Rightarrow> region list" where
  "regions_at h a = (case region_lists h a of None \<Rightarrow> [] | Some rs \<Rightarrow> rs)"

text \<open>The buffer a buffer object stands for in a store.\<close>

definition buffer_of :: "heap \<Rightarrow> AudioBuffer_obj \<Rightarrow> AudioBuffer" where
  "buffer_of h b =
     \<lparr>sampleRate = obj_sampleRate b, length_ab = obj_length b,
      channelData = map (array_at h) (obj_channels b)\<rparr>"

subsection \<open>Allocation\<close>

definition alloc_array :: "heap \<Rightarrow> real list \<Rightarrow> addr \<times> heap" where
  "alloc_array h xs =
     (next_addr h, h\<lparr>arrays := (arrays h)(next_addr h \<mapsto> xs), next_addr := next_addr h + 1\<rparr>)"

definition alloc_regions :: "heap \<Rightarrow> region list \<Rightarrow> addr \<times> heap" where
  "alloc_regions h rs =
     (next_addr h,
      h\<lparr>region_lists := (region_lists h)(next_addr h \<mapsto> rs), next_addr := next_addr h + 1\<rparr>)"

definition alloc_array_buffer :: "heap \<Rightarrow> byte list \<Rightarrow> addr \<times> heap" where
  "alloc_array_buffer h bs =
     (next_addr h,
      h\<lparr>array_buffers := (array_buffers h)(next_addr h \<mapsto> bs), next_addr := next_addr h + 1\<rparr>)"

text \<open>The zero-filled channel arrays of a new buffer.\<close>

fun alloc_channels :: "heap \<Rightarrow> nat \<Rightarrow> nat \<Rightarrow> addr list \<times> heap" where
  "alloc_channels h 0 len = ([], h)"
| "alloc_channels h (Suc n) len =
     (case alloc_array h (replicate len 0) of
        (a, h') \<Rightarrow> (case alloc_channels h' n len of (as, h'') \<Rightarrow> (a # as, h'')))"

definition h_createBuffer ::
  "heap \<Rightarrow> AudioContext \<Rightarrow> nat \<Rightarrow> int \<Rightarrow> nat \<Rightarrow> (error + AudioBuffer_obj) \<times> heap" where
  "h_createBuffer h context channels len rate =
     (if channels = 0 \<or> len \<le> 0 \<or> rate = 0 then (Inl NotSupportedError, h)
      else case alloc_channels h channels (nat len) of
             (as, h') \<Rightarrow>
               (Inr \<lparr>obj_sampleRate = rate, obj_length = nat len, obj_channels = as\<rparr>, h'))"

definition h_new_AudioBuffer ::
  "heap \<Rightarrow> AudioBufferOptions \<Rightarrow> (error + AudioBuffer_obj) \<times> heap" where
  "h_new_AudioBuffer h options =
     (if opt_numberOfChannels options = 0 \<or> opt_length options \<le> 0 \<or> opt_sampleRate options = 0
      then (Inl NotSupportedError, h)
      else case alloc_channels h (opt_numberOfChannels options) (nat (opt_length options)) of
             (as, h') \<Rightarrow>
               (Inr \<lparr>obj_sampleRate = opt_sampleRate options,
                      obj_length = nat (opt_length options), obj_channels = as\<rparr>, h'))"

subsection \<open>Typed arrays by reference\<close>

definition h_getChannelData :: "AudioBuffer_obj \<Rightarrow> nat \<Rightarrow> error + addr" where
  "h_getChannelData b c =
     (if c < length (obj_channels b) then Inr (obj_channels b ! c) else Inl IndexSizeError)"

text \<open>A view made by \<^verbatim>\<open>subarray\<close>: the array it shares, its first index and its length.\<close>

record subarray_view =
  view_array :: addr
  view_begin :: nat
  view_length :: nat

definition h_subarray :: "heap \<Rightarrow> addr \<Rightarrow> int \<Rightarrow> int \<Rightarrow> subarray_view" where
  "h_subarray h a begin_i end_i =
     (let beginIndex = relative_index begin_i (length (array_at h a));
          endIndex = relative_index end_i (length (array_at h a))
      in \<lparr>view_array = a, view_begin = beginIndex, view_length = endIndex - beginIndex\<rparr>)"

definition view_contents :: "heap \<Rightarrow> subarray_view \<Rightarrow> real list" where
  "view_contents h v = take (view_length v) (drop (view_begin v) (array_at h (view_array v)))"

definition h_set :: "heap \<Rightarrow> addr \<Rightarrow> subarray_view \<Rightarrow> int \<Rightarrow> (error + unit) \<times> heap" where
  "h_set h target source offset =
     (case set_at (array_at h target) (view_contents h source) offset of
        Inl e \<Rightarrow> (Inl e, h)
      | Inr xs \<Rightarrow> (Inr (), h\<lparr>arrays := (arrays h)(target \<mapsto> xs)\<rparr>))"

subsection \<open>The reconstruction on the store\<close>

fun h_copy_regions ::
  "heap \<Rightarrow> addr \<Rightarrow> keep list \<Rightarrow> int \<Rightarrow> addr \<Rightarrow> (error + unit) \<times> heap" where
  "h_copy_regions h oldData [] pointer newData = (Inr (), h)"
| "h_copy_regions h oldData (reg # rest) pointer newData =
     (let len = snd reg - fst reg;
          chunk = h_subarray h oldData (fst reg) (snd reg)
      in case h_set h newData chunk pointer of
           (Inl e, h') \<Rightarrow> (Inl e, h')
         | (Inr u, h') \<Rightarrow> h_copy_regions h' oldData rest (pointer + len) newData)"

function h_copy_channels ::
  "heap \<Rightarrow> AudioBuffer_obj \<Rightarrow> keep list \<Rightarrow> nat \<Rightarrow> nat \<Rightarrow> AudioBuffer_obj \<Rightarrow>
   (error + unit) \<times> heap" where
  "h_copy_channels h originalBuffer keepRegions channels c newBuffer =
     (if c < channels then
        (case h_getChannelData originalBuffer c of
           Inl e \<Rightarrow> (Inl e, h)
         | Inr oldData \<Rightarrow>
            (case h_getChannelData newBuffer c of
               Inl e \<Rightarrow> (Inl e, h)
             | Inr newData \<Rightarrow>
                (case h_copy_regions h oldData keepRegions 0 newData of
                   (Inl e, h') \<Rightarrow> (Inl e, h')
                 | (Inr u, h') \<Rightarrow>
                     h_copy_channels h' originalBuffer keepRegions channels (c + 1) newBuffer)))
      else (Inr (), h))"
  by pat_completeness auto
termination
  by (relation "measure (\<lambda>(h, originalBuffer, keepRegions, channels, c, newBuffer). channels - c)")
     auto

declare h_copy_channels.simps [simp del]

text \<open>
  \<^verbatim>\<open>[...silenceRegions].sort(...)\<close>: the spread allocates a new array, which \<^verbatim>\<open>sort\<close> then
  sorts in place. The result is the address of the sorted copy.
\<close>

definition h_sorted_copy :: "heap \<Rightarrow> addr \<Rightarrow> addr \<times> heap" where
  "h_sorted_copy h silenceRegions =
     (case alloc_regions h (regions_at h silenceRegions) of
        (copy, h') \<Rightarrow>
          (copy, h'\<lparr>region_lists :=
                    (region_lists h')(copy \<mapsto> sort_key start_s (regions_at h' copy))\<rparr>))"

definition h_createProcessedBuffer ::
  "heap \<Rightarrow> AudioBuffer_obj \<Rightarrow> addr \<Rightarrow> AudioContext \<Rightarrow> (error + AudioBuffer_obj) \<times> heap" where
  "h_createProcessedBuffer h originalBuffer silenceRegions context =
     (case h_sorted_copy h silenceRegions of
        (sortedSilence, h1) \<Rightarrow>
          let rate = obj_sampleRate originalBuffer;
              channels = length (obj_channels originalBuffer);
              keeps = keep_walk (buffer_of h1 originalBuffer) (regions_at h1 sortedSilence)
          in case h_createBuffer h1 context channels (newLength keeps) rate of
               (Inl e, h2) \<Rightarrow> (Inl e, h2)
             | (Inr newBuffer, h2) \<Rightarrow>
                 (case h_copy_channels h2 originalBuffer keeps channels 0 newBuffer of
                    (Inl e, h3) \<Rightarrow> (Inl e, h3)
                  | (Inr u, h3) \<Rightarrow> (Inr newBuffer, h3)))"

text \<open>
  \<^verbatim>\<open>processAudio\<close> up to its last statement; the result is the pair of the variables
  \<^verbatim>\<open>newBuffer\<close> and \<^verbatim>\<open>newLength\<close>.
\<close>

definition h_processAudio_newBuffer ::
  "heap \<Rightarrow> AudioBuffer_obj \<Rightarrow> addr \<Rightarrow> (error + AudioBuffer_obj \<times> int) \<times> heap" where
  "h_processAudio_newBuffer h originalBuffer silenceRegions =
     (case h_sorted_copy h silenceRegions of
        (sortedSilence, h1) \<Rightarrow>
          let rate = obj_sampleRate originalBuffer;
              channels = length (obj_channels originalBuffer);
              keeps = keep_walk (buffer_of h1 originalBuffer) (regions_at h1 sortedSilence)
          in case h_new_AudioBuffer h1
                    \<lparr>opt_length = newLength keeps, opt_numberOfChannels = channels,
                     opt_sampleRate = rate\<rparr> of
               (Inl e, h2) \<Rightarrow> (Inl e, h2)
             | (Inr newBuffer, h2) \<Rightarrow>
                 (case h_copy_channels h2 originalBuffer keeps channels 0 newBuffer of
                    (Inl e, h3) \<Rightarrow> (Inl e, h3)
                  | (Inr u, h3) \<Rightarrow> (Inr (newBuffer, newLength keeps), h3)))"

subsection \<open>The readers on the store\<close>

text \<open>
  \<^verbatim>\<open>analyzeSilence\<close> reads channel 0 and pushes to a new array, which it returns;
  \<^verbatim>\<open>bufferToWav\<close> reads the channels and writes through a \<^verbatim>\<open>DataView\<close> on a new
  \<^verbatim>\<open>ArrayBuffer\<close>, which the returned \<^verbatim>\<open>Blob\<close> holds. Neither has a statement that assigns to
  an element of the input.
\<close>

definition h_analyzeSilence ::
  "heap \<Rightarrow> AudioBuffer_obj \<Rightarrow> real \<Rightarrow> (error + addr) \<times> heap" where
  "h_analyzeSilence h buffer minDuration =
     (case analyzeSilence (buffer_of h buffer) minDuration of
        Inl e \<Rightarrow> (Inl e, h)
      | Inr silenceRegions \<Rightarrow>
          (case alloc_regions h silenceRegions of (a, h') \<Rightarrow> (Inr a, h')))"

definition h_bufferToWav :: "heap \<Rightarrow> AudioBuffer_obj \<Rightarrow> nat \<Rightarrow> (error + addr) \<times> heap" where
  "h_bufferToWav h abuffer len =
     (case alloc_array_buffer h
             (replicate (len * length (obj_channels abuffer) * 2 + 44) 0) of
        (a, h') \<Rightarrow>
          (case bufferToWav (buffer_of h' abuffer) len of
             Inl e \<Rightarrow> (Inl e, h')
           | Inr bytes \<Rightarrow> (Inr a, h'\<lparr>array_buffers := (array_buffers h')(a \<mapsto> bytes)\<rparr>)))"

definition h_processAudio :: "heap \<Rightarrow> AudioBuffer_obj \<Rightarrow> addr \<Rightarrow> (error + addr) \<times> heap" where
  "h_processAudio h originalBuffer silenceRegions =
     (case h_processAudio_newBuffer h originalBuffer silenceRegions of
        (Inl e, h') \<Rightarrow> (Inl e, h')
      | (Inr (newBuffer, len), h') \<Rightarrow> h_bufferToWav h' newBuffer (nat len))"

text \<open>What a caller can observe of its inputs: everything that exists in the store.\<close>

definition preserved :: "heap \<Rightarrow> heap \<Rightarrow> bool" where
  "preserved h h' \<longleftrightarrow>
     arrays h \<subseteq>\<^sub>m arrays h' \<and> region_lists h \<subseteq>\<^sub>m region_lists h' \<and>
     array_buffers h \<subseteq>\<^sub>m array_buffers h' \<and> next_addr h \<le> next_addr h'"

text \<open>A step that writes no array outside the set \<open>T\<close> and nothing else.\<close>

definition modifies_only :: "addr set \<Rightarrow> heap \<Rightarrow> heap \<Rightarrow> bool" where
  "modifies_only T h h' \<longleftrightarrow>
     (\<forall>a. a \<notin> T \<longrightarrow> arrays h' a = arrays h a) \<and> dom (arrays h') \<subseteq> dom (arrays h) \<union> T \<and>
     region_lists h' = region_lists h \<and> array_buffers h' = array_buffers h \<and>
     next_addr h' = next_addr h"

text \<open>The inputs of a call as the caller sees them: the buffer and the list of regions.\<close>

definition allocated :: "heap \<Rightarrow> AudioBuffer_obj \<Rightarrow> addr \<Rightarrow> bool" where
  "allocated h b rs \<longleftrightarrow> set (obj_channels b) \<subseteq> dom (arrays h) \<and> rs \<in> dom (region_lists h)"

definition inputs_unchanged :: "heap \<Rightarrow> heap \<Rightarrow> AudioBuffer_obj \<Rightarrow> addr \<Rightarrow> bool" where
  "inputs_unchanged h h' b rs \<longleftrightarrow>
     buffer_of h' b = buffer_of h b \<and> regions_at h' rs = regions_at h rs"

definition fresh_storage :: "heap \<Rightarrow> AudioBuffer_obj \<Rightarrow> bool" where
  "fresh_storage h nb \<longleftrightarrow> set (obj_channels nb) \<inter> dom (arrays h) = {}"

subsection \<open>An example store\<close>


definition demo_heap :: heap where
  "demo_heap =
     \<lparr>arrays = [2 \<mapsto> [0.5, 0.25]],
      region_lists = [3 \<mapsto> [\<lparr>start_s = 1 / 8000, end_s = 1 / 4000\<rparr>]],
      array_buffers = Map.empty, next_addr = 4\<rparr>"

definition demo_obj :: AudioBuffer_obj where
  "demo_obj = \<lparr>obj_sampleRate = 8000, obj_length = 2, obj_channels = [2]\<rparr>"

section \<open>Properties of the silence detector\<close>

lemma step_pos [simp]: "0 < step"
  by (simp add: step_def)

lemma aligned_mono:
  "aligned rate minDuration len bound r \<Longrightarrow> bound \<le> bound' \<Longrightarrow>
   aligned rate minDuration len bound' r"
  unfolding aligned_def by (meson le_trans)

lemma aligned_end_le:
  assumes "aligned rate minDuration len bound r" and "0 < rate"
  shows "end_s r \<le> real bound / real rate"
proof -
  from assms(1) obtain k m :: nat
    where "m * step \<le> bound" and e: "end_s r = real (m * step) / real rate"
    unfolding aligned_def by blast
  then have "real (m * step) \<le> real bound"
    by (simp only: of_nat_le_iff)
  then show ?thesis
    unfolding e by (rule divide_right_mono) simp
qed

lemma scan_inv_init: "scan_inv rate minDuration len 0 (False, 0, [])"
  by (simp add: scan_inv_def)

lemma scan_inv_visit:
  assumes inv: "scan_inv rate minDuration (length rawData) i st"
    and i: "i < length rawData" and rate: "0 < rate"
  shows "scan_inv rate minDuration (length rawData) (i + step) (visit rawData rate minDuration i st)"
proof -
  obtain isSilent silenceStart rs where st: "st = (isSilent, silenceStart, rs)"
    by (cases st) auto
  have mono: "\<And>r b b'. aligned rate minDuration (length rawData) b r \<Longrightarrow> b \<le> b' \<Longrightarrow>
      aligned rate minDuration (length rawData) b' r"
    by (rule aligned_mono)
  show ?thesis
  proof (cases "\<bar>rawData ! i\<bar> < threshold")
    case True
    show ?thesis
    proof (cases isSilent)
      case True
      with \<open>\<bar>rawData ! i\<bar> < threshold\<close> inv show ?thesis
        by (auto simp: st visit_def scan_inv_def)
    next
      case False
      with \<open>\<bar>rawData ! i\<bar> < threshold\<close> inv i show ?thesis
        by (auto simp: st visit_def scan_inv_def)
    qed
  next
    case loud: False
    show ?thesis
    proof (cases isSilent)
      case False
      with loud inv show ?thesis
        by (auto simp: st visit_def scan_inv_def intro: mono)
    next
      case True
      with inv have ss: "silenceStart < i" "step dvd silenceStart" "step dvd i"
        and srt: "sorted_wrt (\<lambda>a b. end_s a \<le> start_s b) rs"
        and al: "\<forall>r \<in> set rs. aligned rate minDuration (length rawData) silenceStart r"
        by (auto simp: st scan_inv_def)
      let ?new = "\<lparr>start_s = real silenceStart / real rate, end_s = real i / real rate\<rparr>"
      have al': "\<forall>r \<in> set rs. aligned rate minDuration (length rawData) (i + step) r"
        using al ss(1) by (auto intro: mono)
      have before: "\<forall>r \<in> set rs. end_s r \<le> start_s ?new"
        using al rate by (auto dest: aligned_end_le)
      have new: "aligned rate minDuration (length rawData) (i + step) ?new"
        if "minDuration \<le> (real i - real silenceStart) / real rate"
      proof -
        from ss(2) obtain k where k: "silenceStart = k * step"
          by (metis dvd_div_mult_self)
        from ss(3) obtain m where m: "i = m * step"
          by (metis dvd_div_mult_self)
        from ss(1) have "k < m" unfolding k m by simp
        with k m i that show ?thesis
          unfolding aligned_def by (intro exI [of _ k] exI [of _ m]) simp
      qed
      from True loud srt al' before new ss(3) show ?thesis
        by (auto simp: st visit_def scan_inv_def Let_def sorted_wrt_append)
    qed
  qed
qed


lemma scan_inv_scan:
  assumes "scan_inv rate minDuration (length rawData) i st" and "0 < rate"
  shows "\<exists>j. scan_inv rate minDuration (length rawData) j (scan rawData rate minDuration i st)"
  using assms
proof (induction rawData rate minDuration i st rule: scan.induct)
  case (1 rawData rate minDuration i st)
  show ?case
  proof (cases "i < length rawData")
    case True
    with 1 show ?thesis
      by (subst scan.simps) (simp add: scan_inv_visit)
  next
    case False
    with 1 show ?thesis
      by (subst scan.simps) auto
  qed
qed


lemma aligned_props:
  assumes "aligned rate minDuration len bound r" and "0 < rate"
  shows "0 \<le> start_s r" and "start_s r < end_s r" and "end_s r \<le> real len / real rate"
    and "minDuration \<le> end_s r - start_s r"
proof -
  from assms(1) obtain k m :: nat
    where km: "k < m" and m: "m * step < len"
      and s: "start_s r = real (k * step) / real rate"
      and e: "end_s r = real (m * step) / real rate"
      and d: "minDuration \<le> (real (m * step) - real (k * step)) / real rate"
    unfolding aligned_def by blast
  from assms(2) have rate: "0 < real rate" by simp
  show "0 \<le> start_s r" unfolding s by simp
  from km have "real (k * step) < real (m * step)"
    by (simp only: of_nat_less_iff) simp
  then show "start_s r < end_s r"
    unfolding s e using rate by (rule divide_strict_right_mono)
  from m have "real (m * step) \<le> real len"
    by (simp only: of_nat_le_iff)
  then show "end_s r \<le> real len / real rate"
    unfolding e by (rule divide_right_mono) simp
  from d show "minDuration \<le> end_s r - start_s r"
    unfolding s e by (simp only: diff_divide_distrib)
qed

lemma flush_regions:
  assumes inv: "scan_inv rate minDuration (length rawData) j st" and rate: "0 < rate"
  shows "sorted_wrt (\<lambda>a c. end_s a \<le> start_s c) (flush rawData rate minDuration st)"
    and "\<forall>r \<in> set (flush rawData rate minDuration st).
           0 \<le> start_s r \<and> end_s r \<le> real (length rawData) / real rate \<and>
           start_s r < end_s r \<and> minDuration \<le> end_s r - start_s r"
proof -
  obtain isSilent silenceStart rs where st: "st = (isSilent, silenceStart, rs)"
    by (cases st) auto
  let ?len = "length rawData"
  let ?last = "\<lparr>start_s = real silenceStart / real rate, end_s = real ?len / real rate\<rparr>"
  from inv have srt: "sorted_wrt (\<lambda>a c. end_s a \<le> start_s c) rs"
    and al: "\<forall>r \<in> set rs. aligned rate minDuration ?len (if isSilent then silenceStart else j) r"
    and ss: "isSilent \<Longrightarrow> silenceStart < ?len"
    by (auto simp: st scan_inv_def)
  have old: "\<forall>r \<in> set rs. 0 \<le> start_s r \<and> end_s r \<le> real ?len / real rate \<and>
      start_s r < end_s r \<and> minDuration \<le> end_s r - start_s r"
    using al rate by (blast dest: aligned_props)
  have before: "\<forall>r \<in> set rs. end_s r \<le> start_s ?last" if isSilent
    using al rate that by (auto dest: aligned_end_le)
  have last: "0 \<le> start_s ?last \<and> end_s ?last \<le> real ?len / real rate \<and>
      start_s ?last < end_s ?last" if isSilent
    using ss [OF that] rate by (simp add: divide_strict_right_mono)
  have dur: "end_s ?last - start_s ?last = (real ?len - real silenceStart) / real rate"
    by (simp add: diff_divide_distrib)
  show "sorted_wrt (\<lambda>a c. end_s a \<le> start_s c) (flush rawData rate minDuration st)"
    using srt before by (auto simp: st flush_def Let_def sorted_wrt_append)
  show "\<forall>r \<in> set (flush rawData rate minDuration st).
           0 \<le> start_s r \<and> end_s r \<le> real (length rawData) / real rate \<and>
           start_s r < end_s r \<and> minDuration \<le> end_s r - start_s r"
    using old last dur by (auto simp: st flush_def Let_def)
qed

lemma valid_demo_buffer: "valid_buffer demo_buffer"
  by (simp add: valid_buffer_def demo_buffer_def)

text \<open>
  A run of the detector: the demonstration buffer is silent on \<open>[0, 200)\<close>, loud on
  \<open>[200, 400)\<close> and silent on \<open>[400, 601)\<close>; the second region is closed by the check after
  the loop at the buffer length 601, which is not a multiple of the stride.
\<close>

lemma analyzeSilence_demo_buffer:
  "analyzeSilence demo_buffer 0 =
     Inr [\<lparr>start_s = 0, end_s = 1 / 40\<rparr>, \<lparr>start_s = 1 / 20, end_s = 601 / 8000\<rparr>]"
  by (simp add: analyzeSilence_def getChannelData_def numberOfChannels_def demo_buffer_def
      scan.simps visit_def flush_def step_def threshold_def nth_append)

lemma wf_channel0:
  assumes "valid_buffer b"
  shows "getChannelData b 0 = Inr (channelData b ! 0)"
    and "length (channelData b ! 0) = length_ab b"
  using assms
  by (auto simp: valid_buffer_def getChannelData_def numberOfChannels_def list_all_length)

text \<open>
  Claim C4. On a valid buffer \<^verbatim>\<open>analyzeSilence\<close> returns a list of regions that is
  sorted ascending by start and pairwise non-overlapping (each region ends before the
  next one starts); every region lies within \<open>[0, duration]\<close>, has \<open>start < end\<close>, and
  lasts at least \<open>minDuration\<close>. In exact arithmetic the duration bound holds without
  any tolerance, and for every \<open>minDuration\<close>, negative ones included.
\<close>

theorem analyzeSilence_regions_sorted_bounded:
  assumes "valid_buffer b"
  shows "\<exists>rs. analyzeSilence b minDuration = Inr rs \<and>
           sorted_wrt (\<lambda>a c. start_s a \<le> start_s c) rs \<and>
           sorted_wrt (\<lambda>a c. end_s a \<le> start_s c) rs \<and>
           list_all (region_ok b minDuration) rs"
proof -
  let ?raw = "channelData b ! 0"
  let ?st = "scan ?raw (sampleRate b) minDuration 0 (False, 0, [])"
  let ?rs = "flush ?raw (sampleRate b) minDuration ?st"
  from assms have rate: "0 < sampleRate b"
    by (simp add: valid_buffer_def)
  have eq: "analyzeSilence b minDuration = Inr ?rs"
    by (simp add: analyzeSilence_def wf_channel0 [OF assms])
  obtain j where inv: "scan_inv (sampleRate b) minDuration (length ?raw) j ?st"
    using scan_inv_scan [OF scan_inv_init rate] by blast
  note fl = flush_regions [OF inv rate]
  have ok: "list_all (region_ok b minDuration) ?rs"
    using fl(2) by (simp add: list_all_iff region_ok_def duration_def wf_channel0 [OF assms])
  have "sorted_wrt (\<lambda>a c. start_s a \<le> start_s c) ?rs"
  proof (rule sorted_wrt_mono_rel [OF _ fl(1)])
    fix a c assume "a \<in> set ?rs" and "c \<in> set ?rs" and "end_s a \<le> start_s c"
    with fl(2) show "start_s a \<le> start_s c" by fastforce
  qed
  with eq fl(1) ok show ?thesis by blast
qed

theorem analyzeSilence_regions_sorted_bounded_witness:
  "valid_buffer demo_buffer \<and>
   (\<exists>rs. analyzeSilence demo_buffer 0 = Inr rs \<and>
         sorted_wrt (\<lambda>a c. start_s a \<le> start_s c) rs \<and>
         sorted_wrt (\<lambda>a c. end_s a \<le> start_s c) rs \<and>
         list_all (region_ok demo_buffer 0) rs)"
  using analyzeSilence_regions_sorted_bounded [OF valid_demo_buffer, of 0] valid_demo_buffer
  by simp


lemma aligned_boundary:
  assumes "aligned (sampleRate b) minDuration len bound r"
  shows "boundary_ok b final r"
proof -
  from assms obtain k m :: nat
    where "k < m" and "start_s r = real (k * step) / real (sampleRate b)"
      and "end_s r = real (m * step) / real (sampleRate b)"
    unfolding aligned_def by blast
  then show ?thesis
    unfolding boundary_ok_def step_def by blast
qed

lemma flush_boundaries:
  assumes inv: "scan_inv (sampleRate b) minDuration (length rawData) j st"
    and len: "length rawData = length_ab b"
    and idx: "idx < length (flush rawData (sampleRate b) minDuration st)"
  shows "boundary_ok b (Suc idx = length (flush rawData (sampleRate b) minDuration st))
           (flush rawData (sampleRate b) minDuration st ! idx)"
proof -
  obtain isSilent silenceStart rs where st: "st = (isSilent, silenceStart, rs)"
    by (cases st) auto
  let ?rate = "sampleRate b"
  let ?last = "\<lparr>start_s = real silenceStart / real ?rate,
                 end_s = real (length rawData) / real ?rate\<rparr>"
  from inv have al: "\<forall>r \<in> set rs. \<exists>bound. aligned ?rate minDuration (length rawData) bound r"
    and ss: "isSilent \<Longrightarrow> step dvd silenceStart"
    by (auto simp: st scan_inv_def)
  have old: "boundary_ok b final (rs ! n)" if "n < length rs" for n final
    using al that aligned_boundary nth_mem by blast
  have last: "boundary_ok b True ?last" if isSilent
  proof -
    from ss [OF that] obtain k where "silenceStart = k * 200"
      unfolding step_def by (metis dvd_div_mult_self)
    then show ?thesis
      unfolding boundary_ok_def by (auto simp: len)
  qed
  consider (same) "flush rawData ?rate minDuration st = rs"
    | (more) "isSilent" and "flush rawData ?rate minDuration st = rs @ [?last]"
    by (cases isSilent;
        cases "minDuration \<le> (real (length rawData) - real silenceStart) / real ?rate")
       (simp_all add: st flush_def)
  then show ?thesis
  proof cases
    case same
    with idx old show ?thesis by simp
  next
    case more
    show ?thesis
    proof (cases "idx < length rs")
      case True
      with more old show ?thesis by (simp add: nth_append)
    next
      case False
      with idx more have "idx = length rs" by simp
      with more last show ?thesis by simp
    qed
  qed
qed

text \<open>
  Claim C9. Every region returned by \<^verbatim>\<open>analyzeSilence\<close> starts at \<open>(k * 200) / sampleRate\<close>
  for some natural number \<open>k\<close>, and ends either at \<open>(m * 200) / sampleRate\<close> for some
  \<open>m > k\<close> or, for the last region of the list only, at \<open>length / sampleRate\<close>.
\<close>

theorem analyzeSilence_boundaries_stride_aligned:
  assumes "valid_buffer b"
  shows "\<exists>rs. analyzeSilence b minDuration = Inr rs \<and>
           (\<forall>idx < length rs. boundary_ok b (Suc idx = length rs) (rs ! idx))"
proof -
  let ?raw = "channelData b ! 0"
  let ?st = "scan ?raw (sampleRate b) minDuration 0 (False, 0, [])"
  from assms have rate: "0 < sampleRate b"
    by (simp add: valid_buffer_def)
  have eq: "analyzeSilence b minDuration = Inr (flush ?raw (sampleRate b) minDuration ?st)"
    by (simp add: analyzeSilence_def wf_channel0 [OF assms])
  obtain j where inv: "scan_inv (sampleRate b) minDuration (length ?raw) j ?st"
    using scan_inv_scan [OF scan_inv_init rate] by blast
  show ?thesis
    unfolding eq using flush_boundaries [OF inv wf_channel0(2) [OF assms]] by blast
qed

theorem analyzeSilence_boundaries_stride_aligned_witness:
  "valid_buffer demo_buffer \<and>
   (\<exists>rs. analyzeSilence demo_buffer 0 = Inr rs \<and>
         (\<forall>idx < length rs. boundary_ok demo_buffer (Suc idx = length rs) (rs ! idx)))"
  using analyzeSilence_boundaries_stride_aligned [OF valid_demo_buffer, of 0] valid_demo_buffer
  by simp

lemma visit_nonpos:
  assumes "minDuration \<le> 0" and "silent_pending len i st"
  shows "visit rawData rate minDuration i st = visit rawData rate 0 i st"
proof -
  obtain isSilent silenceStart rs where st: "st = (isSilent, silenceStart, rs)"
    by (cases st) auto
  have "0 \<le> (real i - real silenceStart) / real rate" if isSilent
    using assms(2) that by (simp add: st silent_pending_def)
  with assms(1) show ?thesis
    by (auto simp: st visit_def Let_def)
qed

lemma silent_pending_visit:
  assumes "silent_pending (length rawData) i st" and "i < length rawData"
  shows "silent_pending (length rawData) (i + step) (visit rawData rate minDuration i st)"
  using assms by (cases st) (auto simp: silent_pending_def visit_def Let_def)

lemma scan_nonpos:
  assumes "minDuration \<le> 0" and "silent_pending (length rawData) i st"
  shows "scan rawData rate minDuration i st = scan rawData rate 0 i st \<and>
         silent_pending (length rawData) (length rawData) (scan rawData rate 0 i st)"
  using assms
proof (induction rawData rate minDuration i st rule: scan.induct)
  case (1 rawData rate minDuration i st)
  show ?case
  proof (cases "i < length rawData")
    case True
    from 1(3) True
    have "silent_pending (length rawData) (i + step) (visit rawData rate minDuration i st)"
      by (rule silent_pending_visit)
    from 1(1) [OF True 1(2) this] visit_nonpos [OF 1(2,3)] True show ?thesis
      by (simp add: scan.simps [of rawData rate _ i st])
  next
    case False
    then have stop: "scan rawData rate m i st = st" for m
      by (simp add: scan.simps)
    from 1(3) False show ?thesis
      unfolding stop by (cases st) (auto simp: silent_pending_def)
  qed
qed

lemma flush_nonpos:
  assumes "minDuration \<le> 0" and "silent_pending (length rawData) (length rawData) st"
  shows "flush rawData rate minDuration st = flush rawData rate 0 st"
proof -
  obtain isSilent silenceStart rs where st: "st = (isSilent, silenceStart, rs)"
    by (cases st) auto
  have "0 \<le> (real (length rawData) - real silenceStart) / real rate" if isSilent
    using assms(2) that by (simp add: st silent_pending_def)
  with assms(1) show ?thesis
    by (auto simp: st flush_def Let_def)
qed

text \<open>
  Claim C10. For every \<open>minDuration \<le> 0\<close>, \<^verbatim>\<open>analyzeSilence\<close> returns the same list of
  regions as for \<open>minDuration = 0\<close>: every candidate span has a non-negative duration, so
  the test \<open>duration \<ge> minDuration\<close> accepts all of them.
\<close>

theorem analyzeSilence_nonpositive_minDuration:
  assumes "valid_buffer b" and "minDuration \<le> 0"
  shows "analyzeSilence b minDuration = analyzeSilence b 0 \<and>
         (\<exists>rs. analyzeSilence b 0 = Inr rs)"
proof -
  let ?raw = "channelData b ! 0"
  have init: "silent_pending (length ?raw) 0 (False, 0, [])"
    by (simp add: silent_pending_def)
  note sc = scan_nonpos [OF assms(2) init, of "sampleRate b"]
  from sc flush_nonpos [OF assms(2), of ?raw _ "sampleRate b"] show ?thesis
    by (simp add: analyzeSilence_def wf_channel0 [OF assms(1)])
qed

theorem analyzeSilence_nonpositive_minDuration_witness:
  "valid_buffer demo_buffer \<and> (- 1 :: real) \<le> 0 \<and>
   analyzeSilence demo_buffer (- 1) = analyzeSilence demo_buffer 0 \<and>
   (\<exists>rs. analyzeSilence demo_buffer 0 = Inr rs)"
  using analyzeSilence_nonpositive_minDuration [OF valid_demo_buffer, of "- 1"] valid_demo_buffer
  by simp

lemma machine_state_visit:
  "machine_state (visit rawData rate minDuration i st) =
   transition rawData rate minDuration (machine_state st) i"
  by (cases st) (simp add: machine_state_def visit_def emit_def Let_def)

lemma machine_state_flush:
  "flush rawData rate minDuration st =
   end_of_stream rate minDuration (length rawData) (machine_state st)"
  by (cases st) (simp add: machine_state_def flush_def emit_def Let_def)

lemma no_multiple_between:
  assumes "step dvd i" and "i < j" and "j < i + step"
  shows "\<not> step dvd j"
proof
  assume "step dvd j"
  then have "step dvd j - i" using assms(1) by (rule dvd_diff_nat)
  moreover from assms have "0 < j - i" and "j - i < step" by simp_all
  ultimately show False by (simp add: nat_dvd_not_less)
qed

lemma visited_from:
  assumes "step dvd i" and "i < len"
  shows "filter (\<lambda>j. step dvd j) [i..<len] = i # filter (\<lambda>j. step dvd j) [i + step..<len]"
proof -
  let ?mid = "min (i + step) len"
  have "Suc i \<le> ?mid" and "?mid \<le> len"
    using assms(2) step_pos by (simp_all add: Suc_le_eq)
  then have "[Suc i..<len] = [Suc i..<?mid] @ [?mid..<len]"
    by (metis le_Suc_ex upt_add_eq_append)
  with assms(2) have split: "[i..<len] = i # [Suc i..<?mid] @ [?mid..<len]"
    by (simp add: upt_conv_Cons)
  have none: "filter (\<lambda>j. step dvd j) [Suc i..<?mid] = []"
    using assms(1) by (auto simp: filter_empty_conv dest: no_multiple_between)
  have rest: "[?mid..<len] = [i + step..<len]"
    by (simp add: min_def)
  show ?thesis
    unfolding split using assms(1) by (simp add: none rest)
qed

lemma scan_foldl:
  assumes "step dvd i"
  shows "machine_state (scan rawData rate minDuration i st) =
         foldl (transition rawData rate minDuration) (machine_state st)
           (filter (\<lambda>j. step dvd j) [i..<length rawData])"
  using assms
proof (induction rawData rate minDuration i st rule: scan.induct)
  case (1 rawData rate minDuration i st)
  show ?case
  proof (cases "i < length rawData")
    case True
    from 1(2) have "step dvd i + step" by simp
    from 1(1) [OF True this] True show ?thesis
      by (simp add: scan.simps [of rawData rate minDuration i st]
          visited_from [OF 1(2) True] machine_state_visit)
  next
    case False
    then show ?thesis
      by (simp add: scan.simps [of rawData rate minDuration i st])
  qed
qed

text \<open>
  Claim C3. \<^verbatim>\<open>analyzeSilence\<close> is the two-state machine \<open>detectSilence\<close>: it starts in
  \<open>Sounding\<close>, visits channel 0 at the fixed stride, records \<open>silenceStart\<close> on
  \<open>Sounding \<rightarrow> Silent\<close>, emits the region on \<open>Silent \<rightarrow> Sounding\<close> exactly when its
  duration is at least \<open>minDuration\<close>, and at the end of the stream applies the same test
  with the buffer length as the closing boundary.
\<close>

theorem analyzeSilence_state_machine:
  assumes "valid_buffer b"
  shows "analyzeSilence b minDuration = Inr (detectSilence b minDuration)"
proof -
  let ?raw = "channelData b ! 0"
  have "machine_state (scan ?raw (sampleRate b) minDuration 0 (False, 0, [])) =
        foldl (transition ?raw (sampleRate b) minDuration) (Sounding, []) (visited (length ?raw))"
    using scan_foldl [of 0 ?raw "sampleRate b" minDuration "(False, 0, [])"]
    by (simp add: machine_state_def visited_def)
  then show ?thesis
    by (simp add: analyzeSilence_def detectSilence_def machine_state_flush
        wf_channel0 [OF assms])
qed

theorem analyzeSilence_state_machine_witness:
  "valid_buffer demo_buffer \<and>
   analyzeSilence demo_buffer (1 / 50) = Inr (detectSilence demo_buffer (1 / 50))"
  using analyzeSilence_state_machine [OF valid_demo_buffer, of "1 / 50"] valid_demo_buffer
  by simp

section \<open>Properties of the double arithmetic\<close>

lemma bitlen_numeral: "bitlen (numeral n) = bitlen (numeral n div 2) + 1"
  by (subst compute_bitlen) simp

lemma bitlen_one: "bitlen 1 = 1"
  by (subst compute_bitlen) simp

lemmas double_eval =
  sample_index_def double_times_def round_double_def binary_exponent_def scale2_def
  round_even_def Let_def bitlen_numeral bitlen_one

text \<open>The exponent is the one of the binary representation.\<close>

lemma binary_exponent_bounds:
  assumes "x \<noteq> 0"
  shows "scale2 1 (binary_exponent x) \<le> \<bar>x\<bar> \<and> \<bar>x\<bar> < scale2 1 (binary_exponent x + 1)"
proof (cases "1 \<le> \<bar>x\<bar>")
  case True
  let ?n = "\<lfloor>\<bar>x\<bar>\<rfloor>"
  from True have n: "0 < ?n" by simp
  from bitlen_bounds [OF n] have lo: "2 ^ nat (bitlen ?n - 1) \<le> ?n" and hi: "?n < 2 ^ nat (bitlen ?n)"
    by simp_all
  from n have b: "1 \<le> bitlen ?n"
    by (simp add: bitlen_alt_def)
  from lo have 1: "2 ^ nat (bitlen ?n - 1) \<le> \<bar>x\<bar>"
    using le_floor_iff [of "2 ^ nat (bitlen ?n - 1)" "\<bar>x\<bar>"] by simp
  from hi have 2: "\<bar>x\<bar> < 2 ^ nat (bitlen ?n)"
    using floor_less_iff [of "\<bar>x\<bar>" "2 ^ nat (bitlen ?n)"] by simp
  from True b 1 2 show ?thesis
    by (simp add: binary_exponent_def scale2_def)
next
  case False
  let ?y = "1 / \<bar>x\<bar>"
  let ?n = "\<lceil>?y\<rceil> - 1"
  let ?k = "bitlen ?n"
  from False assms have x: "0 < \<bar>x\<bar>" "\<bar>x\<bar> < 1" by simp_all
  then have y: "1 < ?y" by simp
  then have n: "0 < ?n" by simp
  from bitlen_bounds [OF n] have lo: "2 ^ nat (?k - 1) \<le> ?n" and hi: "?n < 2 ^ nat ?k"
    by simp_all
  from n have k: "1 \<le> ?k"
    by (simp add: bitlen_alt_def)
  from hi have "\<lceil>?y\<rceil> \<le> 2 ^ nat ?k" by simp
  then have "?y \<le> 2 ^ nat ?k"
    using ceiling_le_iff [of ?y "2 ^ nat ?k"] by simp
  with x have 1: "1 / 2 ^ nat ?k \<le> \<bar>x\<bar>"
    by (simp add: field_simps)
  from lo have "2 ^ nat (?k - 1) < \<lceil>?y\<rceil>" by simp
  then have "2 ^ nat (?k - 1) < ?y"
    using less_ceiling_iff [of "2 ^ nat (?k - 1)" ?y] by simp
  with x have 2: "\<bar>x\<bar> < 1 / 2 ^ nat (?k - 1)"
    by (simp add: field_simps)
  have e: "binary_exponent x = - ?k"
    using False by (simp add: binary_exponent_def)
  from k have s1: "scale2 1 (- ?k) = 1 / 2 ^ nat ?k"
    by (simp add: scale2_def)
  have s2: "scale2 1 (- ?k + 1) = 1 / 2 ^ nat (?k - 1)"
  proof (cases "?k = 1")
    case True
    then show ?thesis by (simp add: scale2_def)
  next
    case False
    with k have "1 < ?k" by simp
    then have "nat (- (- ?k + 1)) = nat (?k - 1)" by simp
    with \<open>1 < ?k\<close> show ?thesis by (simp add: scale2_def)
  qed
  from 1 2 show ?thesis
    unfolding e s1 s2 by simp
qed

text \<open>
  The rounding decides the floor: the double nearest to \<open>1800 / 44100\<close> times \<open>44100\<close> is
  the double below \<open>1800\<close>, and likewise for \<open>1001 / 8000\<close>; \<open>601 / 8000\<close> comes back
  exactly.
\<close>

lemma sample_index_examples:
  "sample_index 44100 (1800 / 44100) = 1799"
  "sample_index 8000 (1001 / 8000) = 1000"
  "sample_index 8000 (601 / 8000) = 601"
  by (simp_all add: double_eval)

section \<open>Properties of the gap removal\<close>

lemma wf_demo_buffer: "wf_buffer demo_buffer"
  by (simp add: wf_buffer_def valid_buffer_def demo_buffer_def)

lemma foldl_span: "foldl (\<lambda>acc reg. acc + (snd reg - fst reg)) a keeps = a + sum_list (map span keeps)"
  by (induction keeps arbitrary: a) (simp_all add: span_def)

lemma newLength_sum: "newLength keeps = sum_list (map span keeps)"
  by (simp add: newLength_def foldl_span)

lemma keep_loop_ordered:
  "keeps_ordered acc \<Longrightarrow> keeps_ordered (snd (keep_loop rate rs cursor acc))"
  by (induction rs arbitrary: cursor acc) (simp_all add: keeps_ordered_def Let_def)

lemma keep_regions_ordered: "keeps_ordered (keep_regions b rs)"
proof -
  have "keeps_ordered (snd (keep_loop (sampleRate b) (sort_key start_s rs) 0 []))"
    by (rule keep_loop_ordered) (simp add: keeps_ordered_def)
  then show ?thesis
    by (auto simp: keep_regions_def keep_walk_def keeps_ordered_def Let_def split: prod.splits)
qed



lemma span_sum_nonneg: "keeps_ordered keeps \<Longrightarrow> 0 \<le> sum_list (map span keeps)"
  by (induction keeps) (simp_all add: keeps_ordered_def span_def)

lemma subarray_within:
  assumes "0 \<le> s" and "s \<le> e" and "e \<le> int (length a)"
  shows "subarray a s e = samples_over a (s, e)"
    and "int (length (subarray a s e)) = e - s"
  using assms by (auto simp: subarray_def samples_over_def relative_index_def Let_def)

lemma copy_regions_concat:
  assumes "keeps_within (length oldData) keeps" and "keeps_ordered keeps"
    and "0 \<le> pointer" and "pointer + sum_list (map span keeps) \<le> int (length newData)"
  shows "copy_regions oldData keeps pointer newData =
           Inr (take (nat pointer) newData @ concat (map (samples_over oldData) keeps) @
                drop (nat (pointer + sum_list (map span keeps))) newData)"
  using assms
proof (induction keeps arbitrary: pointer newData)
  case Nil
  then show ?case by simp
next
  case (Cons reg keeps)
  obtain s e where reg: "reg = (s, e)" by (cases reg)
  from Cons.prems have se: "0 \<le> s" "s < e" "e \<le> int (length oldData)"
    and within: "keeps_within (length oldData) keeps" and ordered: "keeps_ordered keeps"
    by (simp_all add: reg keeps_within_def keeps_ordered_def)
  let ?chunk = "subarray oldData s e"
  from se have chunk: "?chunk = samples_over oldData (s, e)"
    by (simp add: subarray_within(1))
  from se have len: "int (length ?chunk) = e - s"
    by (simp add: subarray_within(2))
  let ?rest = "sum_list (map span keeps)"
  have sp: "span reg = e - s"
    by (simp add: reg span_def)
  from ordered have rest: "0 \<le> ?rest"
    by (rule span_sum_nonneg)
  from Cons.prems(4) have fit: "pointer + (e - s) + ?rest \<le> int (length newData)"
    by (simp add: sp)
  let ?newData = "take (nat pointer) newData @ ?chunk @ drop (nat pointer + length ?chunk) newData"
  from Cons.prems(3) fit rest len have set: "set_at newData ?chunk pointer = Inr ?newData"
    by (simp add: set_at_def)
  have p': "0 \<le> pointer + (e - s)"
    using Cons.prems(3) se by simp
  have l': "length ?newData = length newData"
    using Cons.prems(3) fit rest len by simp
  from fit have fit': "pointer + (e - s) + ?rest \<le> int (length ?newData)"
    by (simp only: l')
  have np: "nat (pointer + (e - s)) = nat pointer + length ?chunk"
    using Cons.prems(3) se len by simp
  have t: "take (nat (pointer + (e - s))) ?newData = take (nat pointer) newData @ ?chunk"
    using Cons.prems(3) fit rest len unfolding np by simp
  have d: "drop (nat (pointer + (e - s) + ?rest)) ?newData =
           drop (nat (pointer + (e - s) + ?rest)) newData"
  proof -
    have "nat (pointer + (e - s) + ?rest) = (nat pointer + length ?chunk) + nat ?rest"
      using Cons.prems(3) se len rest by simp
    moreover have "length (take (nat pointer) newData @ ?chunk) = nat pointer + length ?chunk"
      using Cons.prems(3) fit rest len by simp
    ultimately show ?thesis
      by (simp add: drop_append add.commute)
  qed
  have "copy_regions oldData (reg # keeps) pointer newData =
        copy_regions oldData keeps (pointer + (e - s)) ?newData"
    by (simp add: reg set Let_def)
  also have "\<dots> = Inr (take (nat (pointer + (e - s))) ?newData @
                      concat (map (samples_over oldData) keeps) @
                      drop (nat (pointer + (e - s) + ?rest)) ?newData)"
    by (rule Cons.IH [OF within ordered p' fit'])
  also have "\<dots> = Inr (take (nat pointer) newData @
                      concat (map (samples_over oldData) (reg # keeps)) @
                      drop (nat (pointer + sum_list (map span (reg # keeps)))) newData)"
    unfolding t d by (simp add: sp chunk [unfolded reg [symmetric]] add.assoc)
  finally show ?case .
qed


lemma copy_regions_fresh:
  assumes "keeps_within (length oldData) keeps" and "keeps_ordered keeps"
    and "int (length newData) = sum_list (map span keeps)"
  shows "copy_regions oldData keeps 0 newData = Inr (concat (map (samples_over oldData) keeps))"
  using copy_regions_concat [OF assms(1,2), of 0 newData] assms(3) by simp

lemma copy_channels_map:
  assumes within: "keeps_within len keeps" and ordered: "keeps_ordered keeps"
    and old: "list_all (\<lambda>ch. length ch = len) (channelData b)"
    and new: "list_all (\<lambda>ch. int (length ch) = sum_list (map span keeps)) (drop c (channelData nb))"
    and n: "length (channelData b) = n" "length (channelData nb) = n" and c: "c \<le> n"
  shows "copy_channels b keeps n c nb =
           Inr (nb\<lparr>channelData := take c (channelData nb) @
                  map (\<lambda>ch. concat (map (samples_over ch) keeps)) (drop c (channelData b))\<rparr>)"
  using new n(2) c
proof (induction "n - c" arbitrary: c nb)
  case 0
  then have "c = n" by simp
  then have "copy_channels b keeps n c nb = Inr nb"
    by (subst copy_channels.simps) simp
  with \<open>c = n\<close> 0 show ?case
    by (simp add: n(1))
next
  case (Suc k)
  let ?f = "\<lambda>ch. concat (map (samples_over ch) keeps)"
  let ?cd = "channelData nb"
  let ?chans = "channelData b"
  from Suc.hyps(2) have c: "c < n" by simp
  with n(1) Suc.prems(2) have old_c: "getChannelData b c = Inr (?chans ! c)"
    and new_c: "getChannelData nb c = Inr (?cd ! c)"
    by (simp_all add: getChannelData_def numberOfChannels_def)
  from old c n(1) have "length (?chans ! c) = len"
    by (simp add: list_all_length)
  with within have w: "keeps_within (length (?chans ! c)) keeps" by simp
  from Suc.prems(1,2) c have "int (length (?cd ! c)) = sum_list (map span keeps)"
    by (simp add: list_all_length) (metis add.right_neutral zero_less_diff)
  with w ordered have copy: "copy_regions (?chans ! c) keeps 0 (?cd ! c) = Inr (?f (?chans ! c))"
    by (rule copy_regions_fresh)
  let ?nb = "nb\<lparr>channelData := ?cd[c := ?f (?chans ! c)]\<rparr>"
  have k: "k = n - (c + 1)" using Suc.hyps(2) by simp
  have new': "list_all (\<lambda>ch. int (length ch) = sum_list (map span keeps))
                (drop (c + 1) (channelData ?nb))"
  proof -
    have "set (drop (c + 1) ?cd) \<subseteq> set (drop c ?cd)"
      by (rule set_drop_subset_set_drop) simp
    with Suc.prems(1) show ?thesis
      by (auto simp: list_all_iff)
  qed
  have len': "length (channelData ?nb) = n" using Suc.prems(2) by simp
  have c': "c + 1 \<le> n" using c by simp
  have tk: "take (c + 1) (channelData ?nb) = take c ?cd @ [?f (?chans ! c)]"
    using c Suc.prems(2) by (simp add: take_Suc_conv_app_nth)
  have dr: "drop c ?chans = ?chans ! c # drop (c + 1) ?chans"
    using c n(1) by (simp add: Cons_nth_drop_Suc)
  have "copy_channels b keeps n c nb = copy_channels b keeps n (c + 1) ?nb"
    using c by (simp add: copy_channels.simps [of b keeps n c nb] old_c new_c copy)
  also have "\<dots> = Inr (?nb\<lparr>channelData := take (c + 1) (channelData ?nb) @
                                map ?f (drop (c + 1) ?chans)\<rparr>)"
    by (rule Suc.hyps(1) [OF k new' len' c'])
  also have "\<dots> = Inr (nb\<lparr>channelData := take c ?cd @ map ?f (drop c ?chans)\<rparr>)"
    unfolding tk dr by simp
  finally show ?case .
qed

lemma copy_channels_gap_removed:
  assumes wf: "wf_buffer b" and within: "keeps_within (length_ab b) keeps"
    and ordered: "keeps_ordered keeps" and pos: "0 < newLength keeps"
  shows "copy_channels b keeps (numberOfChannels b) 0
           \<lparr>sampleRate = sampleRate b, length_ab = nat (newLength keeps),
            channelData = replicate (numberOfChannels b) (replicate (nat (newLength keeps)) 0)\<rparr>
         = Inr (gap_removed b keeps)"
proof -
  let ?nb = "\<lparr>sampleRate = sampleRate b, length_ab = nat (newLength keeps),
      channelData = replicate (numberOfChannels b) (replicate (nat (newLength keeps)) 0)\<rparr>"
  from wf have old: "list_all (\<lambda>ch. length ch = length_ab b) (channelData b)"
    by (simp add: wf_buffer_def valid_buffer_def)
  from pos have new: "list_all (\<lambda>ch. int (length ch) = sum_list (map span keeps))
      (drop 0 (channelData ?nb))"
    by (simp add: list_all_iff newLength_sum)
  have "copy_channels b keeps (numberOfChannels b) 0 ?nb =
        Inr (?nb\<lparr>channelData := take 0 (channelData ?nb) @
               map (\<lambda>ch. concat (map (samples_over ch) keeps)) (drop 0 (channelData b))\<rparr>)"
    by (rule copy_channels_map [OF within ordered old new])
       (simp_all add: numberOfChannels_def)
  then show ?thesis
    by (simp add: gap_removed_def newLength_sum)
qed

lemma createProcessedBuffer_gap_removed:
  assumes "wf_buffer b" and "keeps_within (length_ab b) (keep_regions b rs)"
    and "0 < newLength (keep_regions b rs)"
  shows "createProcessedBuffer b rs ctx = Inr (gap_removed b (keep_regions b rs))"
proof -
  from assms(1) have "numberOfChannels b \<noteq> 0" and "sampleRate b \<noteq> 0"
    by (simp_all add: wf_buffer_def valid_buffer_def numberOfChannels_def)
  with assms(3) show ?thesis
    by (simp add: createProcessedBuffer_def createBuffer_def Let_def
        copy_channels_gap_removed [OF assms(1,2) keep_regions_ordered assms(3)])
qed

lemma processAudio_newBuffer_gap_removed:
  assumes "wf_buffer b" and "keeps_within (length_ab b) (keep_regions b rs)"
    and "0 < newLength (keep_regions b rs)"
  shows "processAudio_newBuffer b rs = Inr (gap_removed b (keep_regions b rs))"
proof -
  from assms(1) have "numberOfChannels b \<noteq> 0" and "sampleRate b \<noteq> 0"
    by (simp_all add: wf_buffer_def valid_buffer_def numberOfChannels_def)
  with assms(3) show ?thesis
    by (simp add: processAudio_newBuffer_def new_AudioBuffer_def Let_def
        copy_channels_gap_removed [OF assms(1,2) keep_regions_ordered assms(3)])
qed


text \<open>
  The regions the detector reports for the demonstration buffer, in reverse order: only
  the loud part \<open>[200, 400)\<close> is kept.
\<close>

lemma keep_intervals_demo:
  "keep_intervals demo_buffer
     [\<lparr>start_s = 1 / 20, end_s = 601 / 8000\<rparr>, \<lparr>start_s = 0, end_s = 1 / 40\<rparr>] = [(200, 400)]"
  by (simp add: keep_intervals_def demo_buffer_def double_eval)


lemma analyzeSilence_leading_silence:
  "analyzeSilence leading_silence 0 = Inr [\<lparr>start_s = 0, end_s = 2 / 49\<rparr>]"
  by (simp add: analyzeSilence_def getChannelData_def numberOfChannels_def leading_silence_def
      scan.simps visit_def flush_def step_def threshold_def nth_append)







lemma copy_channels_fields:
  assumes "copy_channels b keeps n c nb = Inr r"
  shows "length_ab r = length_ab nb \<and> sampleRate r = sampleRate nb"
  using assms
proof (induction b keeps n c nb rule: copy_channels.induct)
  case (1 b keeps n c nb)
  show ?case
  proof (cases "c < n")
    case True
    with 1(2) obtain oldData newData newData'
      where "getChannelData b c = Inr oldData" and "getChannelData nb c = Inr newData"
        and "copy_regions oldData keeps 0 newData = Inr newData'"
        and "copy_channels b keeps n (c + 1) (nb\<lparr>channelData := (channelData nb)[c := newData']\<rparr>) = Inr r"
      by (subst (asm) copy_channels.simps) (auto split: sum.splits)
    with 1(1) [OF True] show ?thesis by fastforce
  next
    case False
    with 1(2) show ?thesis
      by (subst (asm) copy_channels.simps) simp
  qed
qed

lemma createProcessedBuffer_length:
  assumes "createProcessedBuffer b rs ctx = Inr nb"
  shows "length_ab nb = nat (newLength (keep_regions b rs))"
  using assms
  by (auto simp: createProcessedBuffer_def createBuffer_def Let_def
      split: sum.splits if_splits dest!: copy_channels_fields)

text \<open>
  Claim C5. For every buffer and every list of regions the two reconstructions agree:
  the buffer built inside \<^verbatim>\<open>processAudio\<close> is the result of \<^verbatim>\<open>createProcessedBuffer\<close> (the same
  buffer, or the same error where the allocation raises), and \<^verbatim>\<open>processAudio\<close> is
  \<^verbatim>\<open>bufferToWav\<close> applied to the result of \<^verbatim>\<open>createProcessedBuffer\<close> at its length.
\<close>

theorem reconstructions_equivalent:
  "processAudio_newBuffer b rs = createProcessedBuffer b rs ctx \<and>
   processAudio b rs =
     (case createProcessedBuffer b rs ctx of
        Inl e \<Rightarrow> Inl e
      | Inr newBuffer \<Rightarrow> bufferToWav newBuffer (length_ab newBuffer))"
proof -
  have eq: "processAudio_newBuffer b rs = createProcessedBuffer b rs ctx"
    by (simp add: processAudio_newBuffer_def createProcessedBuffer_def
        new_AudioBuffer_def createBuffer_def Let_def)
  show ?thesis
    by (simp add: eq processAudio_def createProcessedBuffer_length split: sum.splits)
qed

lemma keep_regions_empty:
  assumes "wf_buffer b"
  shows "keep_regions b [] = [(0, int (length_ab b))]"
  using assms by (simp add: keep_regions_def keep_walk_def wf_buffer_def valid_buffer_def)

lemma gap_removed_whole:
  assumes "wf_buffer b"
  shows "gap_removed b [(0, int (length_ab b))] = b"
proof -
  from assms have "list_all (\<lambda>ch. length ch = length_ab b) (channelData b)"
    by (simp add: wf_buffer_def valid_buffer_def)
  then have "map (\<lambda>ch. concat (map (samples_over ch) [(0, int (length_ab b))])) (channelData b)
             = channelData b"
    by (intro map_idI) (simp add: list_all_iff samples_over_def)
  then show ?thesis
    by (simp add: gap_removed_def span_def)
qed

text \<open>
  Claim C7. With an empty list of regions both reconstructions return a buffer equal to
  the input: same length, same channel count, same sample rate, same samples.
\<close>

theorem no_regions_identity:
  assumes "wf_buffer b"
  shows "createProcessedBuffer b [] ctx = Inr b \<and> processAudio_newBuffer b [] = Inr b"
proof -
  from assms have "0 < length_ab b" by (simp add: wf_buffer_def valid_buffer_def)
  then have within: "keeps_within (length_ab b) (keep_regions b [])"
    and pos: "0 < newLength (keep_regions b [])"
    by (simp_all add: keep_regions_empty [OF assms] keeps_within_def newLength_def)
  from createProcessedBuffer_gap_removed [OF assms within pos]
    processAudio_newBuffer_gap_removed [OF assms within pos]
  show ?thesis
    by (simp add: keep_regions_empty [OF assms] gap_removed_whole [OF assms])
qed

theorem no_regions_identity_witness:
  "wf_buffer demo_buffer \<and>
   createProcessedBuffer demo_buffer [] demo_context = Inr demo_buffer \<and>
   processAudio_newBuffer demo_buffer [] = Inr demo_buffer"
  using no_regions_identity [OF wf_demo_buffer, of demo_context] wf_demo_buffer by simp

text \<open>When no sample is kept, the allocation raises.\<close>

lemma no_kept_sample_raises:
  assumes "keep_regions b rs = []"
  shows "createProcessedBuffer b rs ctx = Inl NotSupportedError"
    and "processAudio_newBuffer b rs = Inl NotSupportedError"
    and "processAudio b rs = Inl NotSupportedError"
  by (simp_all add: createProcessedBuffer_def processAudio_def processAudio_newBuffer_def
      assms newLength_def createBuffer_def new_AudioBuffer_def)

lemma keep_regions_silent_second:
  "keep_regions silent_second [\<lparr>start_s = 0, end_s = duration silent_second\<rparr>] = []"
  by (simp add: keep_regions_def keep_walk_def silent_second_def duration_def double_eval)

text \<open>
  A region over the whole buffer does not always remove every frame: for 1001 frames at
  8000 Hz the end index is rounded down to 1000 and the last frame is kept.
\<close>

lemma keep_regions_silent_1001:
  "keep_regions silent_1001 [\<lparr>start_s = 0, end_s = duration silent_1001\<rparr>] = [(1000, 1001)]"
  by (simp add: keep_regions_def keep_walk_def silent_1001_def duration_def double_eval)

lemma wf_silent_second: "wf_buffer silent_second"
  by (simp add: wf_buffer_def valid_buffer_def silent_second_def)

lemma analyzeSilence_silent_second:
  "analyzeSilence silent_second (1 / 2) = Inr [\<lparr>start_s = 0, end_s = duration silent_second\<rparr>]"
  by (simp add: analyzeSilence_def getChannelData_def numberOfChannels_def silent_second_def
      scan.simps visit_def flush_def step_def threshold_def duration_def)

text \<open>
  Claim C6. One second of digital silence: the detector reports the single region
  \<open>[0, duration]\<close>, no sample is kept, and the allocation of a buffer of length 0 raises
  \<^verbatim>\<open>NotSupportedError\<close> in \<^verbatim>\<open>createProcessedBuffer\<close> and in \<^verbatim>\<open>processAudio\<close>. The claim asks for
  a buffer of length 0 and no error.
\<close>

theorem whole_buffer_silence_raises:
  "wf_buffer silent_second \<and>
   analyzeSilence silent_second (1 / 2) = Inr [\<lparr>start_s = 0, end_s = duration silent_second\<rparr>] \<and>
   createProcessedBuffer silent_second [\<lparr>start_s = 0, end_s = duration silent_second\<rparr>] demo_context =
     Inl NotSupportedError \<and>
   processAudio silent_second [\<lparr>start_s = 0, end_s = duration silent_second\<rparr>] =
     Inl NotSupportedError"
  by (simp add: wf_silent_second analyzeSilence_silent_second
      no_kept_sample_raises [OF keep_regions_silent_second])

section \<open>Properties of the WAV encoder\<close>

lemma write_header_two_frames:
  "write_header two_frames (Suc 0) 48 (replicate 48 0, 0) =
     Inr (two_frames_header @ replicate 4 0, 44)"
  by (simp add: write_header_def two_frames_def setUint32_def setUint16_def
      view_setUint32_def view_setUint16_def store_def bytes32_def bytes16_def
      two_frames_header_def)

lemma two_frames_channels:
  "numberOfChannels two_frames = Suc 0" "channelData two_frames = [[1, - 1]]"
  by (simp_all add: numberOfChannels_def two_frames_def)

lemma replicate_4: "replicate 4 x = [x, x, x, x]"
  by (simp add: numeral_eq_Suc)

lemma bufferToWav_two_frames:
  "bufferToWav two_frames 2 = Inr (two_frames_header @ [0, 0, 0, 0])"
  by (simp add: bufferToWav_def two_frames_channels write_header_two_frames
      write_frames.simps replicate_4)

lemma encodeWav_two_frames:
  "encodeWav two_frames 2 = two_frames_header @ [0xFF, 0x7F, 0x00, 0x80]"
  by (simp add: encodeWav_def wav_header_def two_frames_def numberOfChannels_def ascii_def
      u16_def u32_def bytes16_def bytes32_def pcm16_def upt_rec two_frames_header_def)

text \<open>
  Claim C2. The claim asks for the header followed by \<^verbatim>\<open>len\<close> encoded frames. On a mono
  buffer with the two frames \<open>1\<close> and \<open>-1\<close> that is the payload \<open>FF 7F 00 80\<close>
  (\<open>encodeWav\<close>). \<^verbatim>\<open>bufferToWav\<close> returns the same header and the right number of bytes,
  but a payload of zeros: the loop \<^verbatim>\<open>while(pos < len)\<close> starts at \<^verbatim>\<open>pos = 44\<close>, where the
  header writes have left the variable, so the frames 0 to 43 are never read and fewer
  than 45 frames are encoded as silence.
\<close>

theorem bufferToWav_skips_first_frames:
  "wf_buffer two_frames \<and>
   bufferToWav two_frames 2 = Inr (two_frames_header @ [0, 0, 0, 0]) \<and>
   encodeWav two_frames 2 = two_frames_header @ [0xFF, 0x7F, 0x00, 0x80]"
  by (simp add: bufferToWav_two_frames encodeWav_two_frames)
     (simp add: wf_buffer_def valid_buffer_def two_frames_def)

lemma length_bytes16 [simp]: "length (bytes16 w) = 2"
  by (simp add: bytes16_def)

lemma length_bytes32 [simp]: "length (bytes32 w) = 4"
  by (simp add: bytes32_def)

lemma length_overwrite [simp]:
  "p + length bs \<le> length view \<Longrightarrow> length (overwrite view p bs) = length view"
  by (simp add: overwrite_def)

lemma store_overwrite:
  "p + length bs \<le> length view \<Longrightarrow> store view p bs = Inr (overwrite view p bs)"
  by (simp add: store_def overwrite_def)

lemma overwrite_overwrite:
  assumes "p + length bs + length cs \<le> length view"
  shows "overwrite (overwrite view p bs) (p + length bs) cs = overwrite view p (bs @ cs)"
proof -
  have "take (p + length bs) (take p view @ bs @ drop (p + length bs) view) = take p view @ bs"
    using assms by simp
  moreover have "drop (p + length bs + length cs) (take p view @ bs @ drop (p + length bs) view)
      = drop (p + length bs + length cs) view"
    using assms by (simp add: add.commute)
  ultimately show ?thesis
    by (simp add: overwrite_def add.assoc)
qed

lemma overwrite_Nil [simp]: "overwrite view p [] = view"
  by (simp add: overwrite_def)

lemma interleave_result:
  assumes "i \<le> n" and "44 + offset + 2 * (n - i) \<le> length view"
  shows "interleave channels n pos i (view, offset) =
           Inr (overwrite view (44 + offset)
                  (concat (map (\<lambda>k. sample_bytes (channels ! k) pos) [i..<n])),
                offset + 2 * (n - i))"
  using assms
proof (induction "n - i" arbitrary: i view offset)
  case 0
  then have "i = n" by simp
  then show ?case
    by (subst interleave.simps) simp
next
  case (Suc d)
  then have i: "i < n" by simp
  let ?bs = "sample_bytes (channels ! i) pos"
  let ?view = "overwrite view (44 + offset) ?bs"
  have len_bs: "length ?bs = 2" by (simp add: sample_bytes_def)
  from Suc.prems(2) i have fit1: "44 + offset + length ?bs \<le> length view"
    by (simp add: len_bs)
  then have st: "view_setInt16 view (44 + offset) (convert_sample (read_sample (channels ! i) pos))
      = Inr ?view"
    by (simp add: view_setInt16_def sample_bytes_def store_overwrite)
  have d: "d = n - (i + 1)" using Suc.hyps(2) by simp
  have i': "i + 1 \<le> n" using i by simp
  have fit': "44 + (offset + 2) + 2 * (n - (i + 1)) \<le> length ?view"
    using Suc.prems(2) i fit1 by simp
  have "interleave channels n pos i (view, offset) =
        interleave channels n pos (i + 1) (?view, offset + 2)"
    using i st by (subst interleave.simps) (simp add: Let_def)
  also have "\<dots> = Inr (overwrite ?view (44 + (offset + 2))
                 (concat (map (\<lambda>k. sample_bytes (channels ! k) pos) [i + 1..<n])),
               offset + 2 + 2 * (n - (i + 1)))"
    by (rule Suc.hyps(1) [OF d i' fit'])
  also have "overwrite ?view (44 + (offset + 2))
                 (concat (map (\<lambda>k. sample_bytes (channels ! k) pos) [i + 1..<n])) =
             overwrite view (44 + offset)
                 (?bs @ concat (map (\<lambda>k. sample_bytes (channels ! k) pos) [i + 1..<n]))"
  proof -
    have "length (concat (map (\<lambda>k. sample_bytes (channels ! k) pos) [i + 1..<n])) = 2 * (n - (i + 1))"
      by (simp add: length_concat sample_bytes_def comp_def sum_list_triv)
    with Suc.prems(2) i have "44 + offset + length ?bs +
        length (concat (map (\<lambda>k. sample_bytes (channels ! k) pos) [i + 1..<n])) \<le> length view"
      by (simp add: len_bs)
    from overwrite_overwrite [OF this] show ?thesis
      by (simp add: len_bs add.assoc)
  qed
  also have "?bs @ concat (map (\<lambda>k. sample_bytes (channels ! k) pos) [i + 1..<n]) =
             concat (map (\<lambda>k. sample_bytes (channels ! k) pos) [i..<n])"
    using i by (simp add: upt_conv_Cons)
  also have "offset + 2 + 2 * (n - (i + 1)) = offset + 2 * (n - i)"
    using i by simp
  finally show ?case .
qed


lemma frame_bytes_nth:
  "concat (map (\<lambda>k. sample_bytes (channels ! k) pos) [0..<length channels]) =
   frame_bytes channels pos"
proof -
  have "map (\<lambda>k. sample_bytes (channels ! k) pos) [0..<length channels] =
        map (\<lambda>channel. sample_bytes channel pos) (map ((!) channels) [0..<length channels])"
    by simp
  then show ?thesis
    by (simp only: frame_bytes_def map_nth)
qed

lemma length_frame_bytes [simp]: "length (frame_bytes channels pos) = 2 * length channels"
  by (simp add: frame_bytes_def length_concat sample_bytes_def comp_def sum_list_triv)

lemma length_frames:
  "length (concat (map (frame_bytes channels) [pos..<len])) = 2 * length channels * (len - pos)"
  by (simp add: length_concat comp_def sum_list_triv)

lemma write_frames_result:
  assumes "44 + offset + 2 * length channels * (len - pos) \<le> length view"
  shows "write_frames channels (length channels) len pos (view, offset) =
           Inr (overwrite view (44 + offset) (concat (map (frame_bytes channels) [pos..<len])))"
  using assms
proof (induction "len - pos" arbitrary: pos view offset)
  case 0
  then have "\<not> pos < len" by simp
  then show ?case
    by (subst write_frames.simps) simp
next
  case (Suc d)
  let ?n = "length channels"
  from Suc.hyps(2) have pos: "pos < len" by simp
  then have more: "len - pos = Suc (len - (pos + 1))" by simp
  let ?fr = "frame_bytes channels pos"
  let ?view = "overwrite view (44 + offset) ?fr"
  from Suc.prems have fit1: "44 + offset + 2 * (?n - 0) \<le> length view"
    unfolding more by simp
  have il: "interleave channels ?n pos 0 (view, offset) = Inr (?view, offset + 2 * ?n)"
    using interleave_result [OF _ fit1, of channels pos] by (simp add: frame_bytes_nth)
  have d: "d = len - (pos + 1)" using Suc.hyps(2) by simp
  from Suc.prems have fit: "44 + offset + 2 * ?n + 2 * ?n * (len - (pos + 1)) \<le> length view"
    unfolding more by simp
  then have fit': "44 + (offset + 2 * ?n) + 2 * ?n * (len - (pos + 1)) \<le> length ?view"
    using fit1 by simp
  have "write_frames channels ?n len pos (view, offset) =
        write_frames channels ?n len (pos + 1) (?view, offset + 2 * ?n)"
    using pos il by (subst write_frames.simps) simp
  also have "\<dots> = Inr (overwrite ?view (44 + (offset + 2 * ?n))
                      (concat (map (frame_bytes channels) [pos + 1..<len])))"
    by (rule Suc.hyps(1) [OF d fit'])
  also have "overwrite ?view (44 + (offset + 2 * ?n))
                 (concat (map (frame_bytes channels) [pos + 1..<len])) =
             overwrite view (44 + offset)
                 (?fr @ concat (map (frame_bytes channels) [pos + 1..<len]))"
  proof -
    from fit have "44 + offset + length ?fr +
        length (concat (map (frame_bytes channels) [pos + 1..<len])) \<le> length view"
      by (simp add: length_frames)
    from overwrite_overwrite [OF this] show ?thesis
      by (simp add: add.assoc)
  qed
  also have "?fr @ concat (map (frame_bytes channels) [pos + 1..<len]) =
             concat (map (frame_bytes channels) [pos..<len])"
    using pos by (simp add: upt_conv_Cons)
  finally show ?case .
qed


lemma overwrite_next:
  assumes "q = p + length bs" and "q + length cs \<le> length view"
  shows "overwrite (overwrite view p bs) q cs = overwrite view p (bs @ cs)"
  using overwrite_overwrite [of p bs cs view] assms by simp

lemma setUint32_overwrite:
  "pos + 4 \<le> length view \<Longrightarrow>
   setUint32 d (view, pos) = Inr (overwrite view pos (bytes32 (word_of_int d)), pos + 4)"
  by (simp add: setUint32_def view_setUint32_def store_overwrite)

lemma setUint16_overwrite:
  "pos + 2 \<le> length view \<Longrightarrow>
   setUint16 d (view, pos) = Inr (overwrite view pos (bytes16 (word_of_int d)), pos + 2)"
  by (simp add: setUint16_def view_setUint16_def store_overwrite)

lemma length_header_fields [simp]: "length (header_fields b n L) = 44"
  by (simp add: header_fields_def)

lemma write_header_result:
  assumes "44 \<le> L"
  shows "write_header b n L (replicate L 0, 0) =
           Inr (header_fields b n L @ replicate (L - 44) 0, 44)"
proof -
  have "write_header b n L (replicate L 0, 0) =
          Inr (overwrite (replicate L 0) 0 (header_fields b n L), 44)"
    using assms
    by (simp add: write_header_def setUint32_overwrite setUint16_overwrite overwrite_next
        header_fields_def)
  then show ?thesis
    using assms by (simp add: overwrite_def)
qed


lemma header_fields_wav_header:
  "header_fields b (numberOfChannels b) (len * numberOfChannels b * 2 + 44) = wav_header b len"
proof -
  let ?n = "numberOfChannels b"
  have 1: "int (len * ?n * 2 + 44) - 8 = int (44 + len * ?n * 2 - 8)"
    by simp
  have 2: "int (len * ?n * 2 + 44) - 40 - 4 = int (len * ?n * 2)"
    by simp
  have 3: "int (sampleRate b) * 2 * int ?n = int (sampleRate b * 2 * ?n)"
    and 4: "int ?n * 2 = int (?n * 2)"
    by simp_all
  have ascii: "ascii ''RIFF'' = bytes32 0x46464952" "ascii ''WAVE'' = bytes32 0x45564157"
    "ascii ''fmt '' = bytes32 0x20746d66" "ascii ''data'' = bytes32 0x61746164"
    by (simp_all add: ascii_def bytes32_def)
  show ?thesis
    unfolding header_fields_def wav_header_def Let_def 1 2 3 4 ascii u32_def u16_def
    by simp
qed

text \<open>
  What \<^verbatim>\<open>bufferToWav\<close> returns, for every buffer and every \<^verbatim>\<open>len\<close>: the header of the WAV
  format, then the frames from index 44 on, then zeros in place of the frames that the
  loop has not written.
\<close>

lemma bufferToWav_result:
  "bufferToWav b len =
     Inr (wav_header b len @ concat (map (frame_bytes (channelData b)) [44..<len]) @
          replicate (min len 44 * numberOfChannels b * 2) 0)"
proof -
  let ?n = "numberOfChannels b"
  let ?L = "len * ?n * 2 + 44"
  let ?frames = "concat (map (frame_bytes (channelData b)) [44..<len])"
  let ?view = "header_fields b ?n ?L @ replicate (?L - 44) 0"
  have n: "?n = length (channelData b)"
    by (simp add: numberOfChannels_def)
  have lf: "length ?frames = 2 * ?n * (len - 44)"
    by (simp add: length_frames n)
  have fit: "44 + 0 + 2 * length (channelData b) * (len - 44) \<le> length ?view"
    by (simp add: n [symmetric] diff_mult_distrib2 mult.commute)
  have "bufferToWav b len = write_frames (channelData b) ?n len 44 (?view, 0)"
    by (simp add: bufferToWav_def Let_def write_header_result)
  also have "\<dots> = Inr (overwrite ?view (44 + 0) ?frames)"
    using write_frames_result [OF fit] by (simp add: n)
  also have "overwrite ?view (44 + 0) ?frames =
      header_fields b ?n ?L @ ?frames @ replicate (min len 44 * ?n * 2) 0"
  proof -
    have "len * ?n * 2 - 2 * ?n * (len - 44) = min len 44 * ?n * 2"
      by (cases "len \<le> 44") (simp_all add: min_def diff_mult_distrib2 algebra_simps)
    then show ?thesis
      by (simp add: overwrite_def lf)
  qed
  finally show ?thesis
    by (simp add: header_fields_wav_header)
qed

lemma length_wav_header: "length (wav_header b len) = 44"
  by (simp add: header_fields_wav_header [symmetric])

lemma bufferToWav_length:
  "\<exists>bytes. bufferToWav b len = Inr bytes \<and> length bytes = 44 + len * numberOfChannels b * 2"
proof -
  have "44 + (2 * numberOfChannels b * (len - 44) + min len 44 * numberOfChannels b * 2) =
        44 + len * numberOfChannels b * 2"
    by (cases "len \<le> 44") (simp_all add: min_def diff_mult_distrib2 algebra_simps)
  then show ?thesis
    by (simp add: bufferToWav_result length_wav_header length_frames numberOfChannels_def)
qed

text \<open>
  On a sample that exists, the conversion of the encoder (with the detour of \<^verbatim>\<open>| 0\<close> through
  32 bits) stores the two bytes the description asks for.
\<close>

lemma int16_of_int32:
  "(word_of_int (sint (word_of_int t :: 32 word)) :: 16 word) = word_of_int t"
  by (simp add: sint_sbintrunc' word_of_int_eq_iff take_bit_signed_take_bit)

lemma scast_int32_int16: "(scast (word_of_int t :: 32 word) :: 16 word) = word_of_int t"
  using int16_of_int32 [of t] by simp

lemma pcm16_sample_bytes:
  "pos < length channel \<Longrightarrow> pcm16 (channel ! pos) = sample_bytes channel pos"
  by (simp add: pcm16_def sample_bytes_def read_sample_def convert_sample_def to_int32_def
      Let_def scast_int32_int16)

lemma encodeWav_frames:
  assumes "list_all (\<lambda>ch. len \<le> length ch) (channelData b)"
  shows "encodeWav b len =
           wav_header b len @ concat (map (frame_bytes (channelData b)) [0..<len])"
proof -
  have per_frame: "concat (map (\<lambda>channel. pcm16 (channel ! frame)) (channelData b)) =
        frame_bytes (channelData b) frame" if "frame < len" for frame
  proof -
    from assms that have "\<forall>channel \<in> set (channelData b). frame < length channel"
      by (auto simp: list_all_iff)
    then have "map (\<lambda>channel. pcm16 (channel ! frame)) (channelData b) =
               map (\<lambda>channel. sample_bytes channel frame) (channelData b)"
      by (simp add: pcm16_sample_bytes)
    then show ?thesis
      unfolding frame_bytes_def by (rule arg_cong)
  qed
  have frames: "map (\<lambda>frame. concat (map (\<lambda>channel. pcm16 (channel ! frame)) (channelData b)))
               [0..<len] = map (frame_bytes (channelData b)) [0..<len]"
    by (rule map_cong [OF refl]) (simp add: per_frame)
  show ?thesis
    unfolding encodeWav_def frames by (rule refl)
qed

section \<open>Frame properties on the store\<close>

lemma preserved_refl: "preserved h h"
  by (simp add: preserved_def)

lemma preserved_trans: "preserved h1 h2 \<Longrightarrow> preserved h2 h3 \<Longrightarrow> preserved h1 h3"
  unfolding preserved_def by (meson map_le_trans le_trans)

lemma alloc_array_props:
  assumes "wf_heap h" and "alloc_array h xs = (a, h')"
  shows "wf_heap h'" and "preserved h h'" and "a = next_addr h" and "next_addr h' = Suc a"
    and "dom (arrays h') = insert a (dom (arrays h))"
proof -
  from assms(2) have a: "a = next_addr h"
    and h': "h' = h\<lparr>arrays := (arrays h)(next_addr h \<mapsto> xs), next_addr := next_addr h + 1\<rparr>"
    by (auto simp: alloc_array_def)
  from assms(1) have fresh: "next_addr h \<notin> dom (arrays h)"
    unfolding wf_heap_def by (meson less_irrefl)
  show "a = next_addr h" by (rule a)
  show "next_addr h' = Suc a" by (simp add: h' a)
  show "dom (arrays h') = insert a (dom (arrays h))" by (simp add: h' a)
  from assms(1) show "wf_heap h'"
    unfolding wf_heap_def h' by (auto simp: less_Suc_eq)
  from fresh show "preserved h h'"
    unfolding preserved_def h' by (auto simp: map_le_def)
qed

lemma alloc_regions_props:
  assumes "wf_heap h" and "alloc_regions h rs = (a, h')"
  shows "wf_heap h'" and "preserved h h'" and "region_lists h' a = Some rs"
proof -
  from assms(2) have a: "a = next_addr h"
    and h': "h' = h\<lparr>region_lists := (region_lists h)(next_addr h \<mapsto> rs),
                    next_addr := next_addr h + 1\<rparr>"
    by (auto simp: alloc_regions_def)
  from assms(1) have fresh: "next_addr h \<notin> dom (region_lists h)"
    unfolding wf_heap_def by (meson less_irrefl)
  show "region_lists h' a = Some rs" by (simp add: h' a)
  from assms(1) show "wf_heap h'"
    unfolding wf_heap_def h' by (auto simp: less_Suc_eq)
  from fresh show "preserved h h'"
    unfolding preserved_def h' by (auto simp: map_le_def)
qed

lemma alloc_array_buffer_props:
  assumes "wf_heap h" and "alloc_array_buffer h bs = (a, h')"
  shows "wf_heap h'" and "preserved h h'" and "a \<notin> dom (array_buffers h)"
    and "arrays h' = arrays h"
proof -
  from assms(2) have a: "a = next_addr h"
    and h': "h' = h\<lparr>array_buffers := (array_buffers h)(next_addr h \<mapsto> bs),
                    next_addr := next_addr h + 1\<rparr>"
    by (auto simp: alloc_array_buffer_def)
  from assms(1) show fresh: "a \<notin> dom (array_buffers h)"
    unfolding wf_heap_def a by (meson less_irrefl)
  show "arrays h' = arrays h" by (simp add: h')
  from assms(1) show "wf_heap h'"
    unfolding wf_heap_def h' by (auto simp: less_Suc_eq)
  from fresh show "preserved h h'"
    unfolding preserved_def h' a by (auto simp: map_le_def)
qed

lemma alloc_channels_props:
  assumes "wf_heap h" and "alloc_channels h n len = (as, h')"
  shows "wf_heap h' \<and> preserved h h' \<and> set as \<inter> dom (arrays h) = {} \<and>
         dom (arrays h') = dom (arrays h) \<union> set as"
  using assms
proof (induction n arbitrary: h as h')
  case 0
  then show ?case by (simp add: preserved_refl)
next
  case (Suc n)
  obtain a h1 where a: "alloc_array h (replicate len 0) = (a, h1)"
    by (cases "alloc_array h (replicate len 0)")
  obtain as' h2 where as': "alloc_channels h1 n len = (as', h2)"
    by (cases "alloc_channels h1 n len")
  from Suc.prems(2) a as' have res: "as = a # as'" "h' = h2" by simp_all
  note pa = alloc_array_props [OF Suc.prems(1) a]
  from Suc.IH [OF pa(1) as'] have ih: "wf_heap h2" "preserved h1 h2"
    "set as' \<inter> dom (arrays h1) = {}" "dom (arrays h2) = dom (arrays h1) \<union> set as'"
    by simp_all
  from Suc.prems(1) pa(3) have "a \<notin> dom (arrays h)"
    unfolding wf_heap_def by (meson less_irrefl)
  with ih pa show ?case
    unfolding res by (auto intro: preserved_trans)
qed

lemma modifies_only_preserved:
  assumes "modifies_only T h h'" and "T \<inter> dom (arrays h0) = {}" and "preserved h0 h"
  shows "preserved h0 h'"
  using assms unfolding modifies_only_def preserved_def map_le_def
  by (metis disjoint_iff domI)

lemma modifies_only_refl: "modifies_only T h h"
  by (simp add: modifies_only_def)

lemma modifies_only_trans:
  "modifies_only T h1 h2 \<Longrightarrow> modifies_only T h2 h3 \<Longrightarrow> modifies_only T h1 h3"
  unfolding modifies_only_def by auto

lemma modifies_only_mono: "modifies_only S h h' \<Longrightarrow> S \<subseteq> T \<Longrightarrow> modifies_only T h h'"
  unfolding modifies_only_def by auto

lemma h_set_modifies: "modifies_only {target} h (snd (h_set h target source offset))"
  by (auto simp: h_set_def modifies_only_def split: sum.splits)

lemma h_copy_regions_modifies:
  "modifies_only {newData} h (snd (h_copy_regions h oldData keeps pointer newData))"
proof (induction keeps arbitrary: h pointer)
  case Nil
  show ?case by (simp add: modifies_only_refl)
next
  case (Cons reg keeps)
  let ?set = "h_set h newData (h_subarray h oldData (fst reg) (snd reg)) pointer"
  have step: "modifies_only {newData} h (snd ?set)"
    by (rule h_set_modifies)
  show ?case
  proof (cases ?set)
    case (Pair r h1)
    with step have 1: "modifies_only {newData} h h1" by simp
    show ?thesis
    proof (cases r)
      case (Inl e)
      with Pair 1 show ?thesis by (simp add: Let_def)
    next
      case (Inr u)
      from Cons.IH [of h1 "pointer + (snd reg - fst reg)"] 1
      have "modifies_only {newData} h
              (snd (h_copy_regions h1 oldData keeps (pointer + (snd reg - fst reg)) newData))"
        by (rule modifies_only_trans [rotated])
      with Pair Inr show ?thesis by (simp add: Let_def)
    qed
  qed
qed

lemma h_copy_channels_modifies:
  "modifies_only (set (obj_channels nb)) h (snd (h_copy_channels h b keeps n c nb))"
proof (induction h b keeps n c nb rule: h_copy_channels.induct)
  case (1 h b keeps n c nb)
  show ?case
  proof (cases "c < n")
    case False
    then show ?thesis
      by (subst h_copy_channels.simps) (simp add: modifies_only_refl)
  next
    case True
    show ?thesis
    proof (cases "h_getChannelData b c")
      case (Inl e)
      with True show ?thesis
        by (subst h_copy_channels.simps) (simp add: modifies_only_refl)
    next
      case old: (Inr oldData)
      show ?thesis
      proof (cases "h_getChannelData nb c")
        case (Inl e)
        with True old show ?thesis
          by (subst h_copy_channels.simps) (simp add: modifies_only_refl)
      next
        case new: (Inr newData)
        then have mem: "{newData} \<subseteq> set (obj_channels nb)"
          by (auto simp: h_getChannelData_def split: if_splits)
        obtain r h1 where copy: "h_copy_regions h oldData keeps 0 newData = (r, h1)"
          by (cases "h_copy_regions h oldData keeps 0 newData")
        from h_copy_regions_modifies [of newData h oldData keeps 0] copy mem
        have m1: "modifies_only (set (obj_channels nb)) h h1"
          by (auto intro: modifies_only_mono)
        show ?thesis
        proof (cases r)
          case (Inl e)
          with True old new copy m1 show ?thesis
            by (subst h_copy_channels.simps) simp
        next
          case (Inr u)
          from 1 [OF True old new copy [symmetric, unfolded Inr] refl] 
          have "modifies_only (set (obj_channels nb)) h1
                  (snd (h_copy_channels h1 b keeps n (c + 1) nb))" .
          with m1 have "modifies_only (set (obj_channels nb)) h
                  (snd (h_copy_channels h1 b keeps n (c + 1) nb))"
            by (rule modifies_only_trans)
          with True old new copy Inr show ?thesis
            by (subst h_copy_channels.simps) simp
        qed
      qed
    qed
  qed
qed

lemma h_sorted_copy_props:
  assumes "wf_heap h" and "h_sorted_copy h rs = (copy, h')"
  shows "wf_heap h'" and "preserved h h'" and "arrays h' = arrays h"
    and "regions_at h' copy = sort_key start_s (regions_at h rs)"
proof -
  let ?h1 = "h\<lparr>region_lists := (region_lists h)(next_addr h \<mapsto> regions_at h rs),
                next_addr := next_addr h + 1\<rparr>"
  from assms(2) have copy: "copy = next_addr h"
    and h': "h' = ?h1\<lparr>region_lists :=
                (region_lists ?h1)(copy \<mapsto> sort_key start_s (regions_at ?h1 copy))\<rparr>"
    by (auto simp: h_sorted_copy_def alloc_regions_def)
  from assms(1) have fresh: "next_addr h \<notin> dom (region_lists h)"
    unfolding wf_heap_def by (meson less_irrefl)
  show "arrays h' = arrays h" by (simp add: h')
  show "regions_at h' copy = sort_key start_s (regions_at h rs)"
    by (simp add: h' copy regions_at_def)
  from assms(1) show "wf_heap h'"
    unfolding wf_heap_def h' copy by (auto simp: less_Suc_eq)
  from fresh show "preserved h h'"
    unfolding preserved_def h' copy by (auto simp: map_le_def)
qed

lemma h_createBuffer_props:
  assumes "wf_heap h" and "h_createBuffer h ctx n len rate = (r, h')"
  shows "wf_heap h' \<and> preserved h h' \<and>
         (\<forall>nb. r = Inr nb \<longrightarrow>
            fresh_storage h nb \<and> set (obj_channels nb) \<subseteq> dom (arrays h'))"
proof (cases "n = 0 \<or> len \<le> 0 \<or> rate = 0")
  case True
  with assms have "h' = h" and "r = Inl NotSupportedError"
    by (auto simp: h_createBuffer_def)
  with assms(1) show ?thesis
    by (simp add: preserved_refl)
next
  case False
  obtain as h2 where al: "alloc_channels h n (nat len) = (as, h2)"
    by (cases "alloc_channels h n (nat len)")
  with False assms(2) have "h' = h2"
    and r: "r = Inr \<lparr>obj_sampleRate = rate, obj_length = nat len, obj_channels = as\<rparr>"
    by (auto simp: h_createBuffer_def)
  with alloc_channels_props [OF assms(1) al] show ?thesis
    by (auto simp: fresh_storage_def)
qed

lemma h_new_AudioBuffer_createBuffer:
  "h_new_AudioBuffer h \<lparr>opt_length = len, opt_numberOfChannels = n, opt_sampleRate = rate\<rparr> =
   h_createBuffer h ctx n len rate"
  by (simp add: h_new_AudioBuffer_def h_createBuffer_def)

lemma preserved_inputs_unchanged:
  assumes "preserved h h'" and "allocated h b rs"
  shows "inputs_unchanged h h' b rs"
proof -
  from assms have "\<forall>a \<in> set (obj_channels b). arrays h' a = arrays h a"
    unfolding preserved_def allocated_def map_le_def by (metis subsetD)
  then have "map (array_at h') (obj_channels b) = map (array_at h) (obj_channels b)"
    by (simp add: array_at_def)
  moreover from assms have "region_lists h' rs = region_lists h rs"
    unfolding preserved_def allocated_def map_le_def by metis
  ultimately show ?thesis
    by (simp add: inputs_unchanged_def buffer_of_def regions_at_def)
qed

lemma modifies_only_wf:
  assumes "wf_heap h" and "modifies_only T h h'" and "T \<subseteq> dom (arrays h)"
  shows "wf_heap h'"
proof -
  from assms(2,3) have "dom (arrays h') \<subseteq> dom (arrays h)"
    and "region_lists h' = region_lists h" and "array_buffers h' = array_buffers h"
    and "next_addr h' = next_addr h"
    unfolding modifies_only_def by auto
  with assms(1) show ?thesis
    unfolding wf_heap_def by (metis subsetD)
qed

text \<open>The statements shared by the two reconstructions, after the allocation.\<close>

lemma reconstruction_frame:
  assumes wf: "wf_heap h" and sc: "h_sorted_copy h rs = (copy, h1)"
    and cb: "h_createBuffer h1 ctx n len rate = (r2, h2)"
  shows "wf_heap h2 \<and> preserved h h2 \<and>
         (\<forall>nb. r2 = Inr nb \<longrightarrow>
            fresh_storage h nb \<and>
            wf_heap (snd (h_copy_channels h2 b keeps n 0 nb)) \<and>
            preserved h (snd (h_copy_channels h2 b keeps n 0 nb)))"
proof -
  note p1 = h_sorted_copy_props [OF wf sc]
  from h_createBuffer_props [OF p1(1) cb]
  have wf2: "wf_heap h2" and pr2: "preserved h1 h2"
    and new: "\<And>nb. r2 = Inr nb \<Longrightarrow>
      fresh_storage h1 nb \<and> set (obj_channels nb) \<subseteq> dom (arrays h2)"
    by simp_all
  from p1(2) pr2 have pr: "preserved h h2" by (rule preserved_trans)
  have "fresh_storage h nb \<and>
        wf_heap (snd (h_copy_channels h2 b keeps n 0 nb)) \<and>
        preserved h (snd (h_copy_channels h2 b keeps n 0 nb))" if "r2 = Inr nb" for nb
  proof -
    let ?h3 = "snd (h_copy_channels h2 b keeps n 0 nb)"
    have m: "modifies_only (set (obj_channels nb)) h2 ?h3"
      by (rule h_copy_channels_modifies)
    from new [OF that] have f: "set (obj_channels nb) \<inter> dom (arrays h) = {}"
      and sub: "set (obj_channels nb) \<subseteq> dom (arrays h2)"
      by (simp_all add: fresh_storage_def p1(3))
    from m f pr have "preserved h ?h3" by (rule modifies_only_preserved)
    moreover from wf2 m sub have "wf_heap ?h3" by (rule modifies_only_wf)
    ultimately show ?thesis using f by (simp add: fresh_storage_def)
  qed
  with wf2 pr show ?thesis by blast
qed

lemma h_createProcessedBuffer_frame:
  assumes "wf_heap h" and "h_createProcessedBuffer h b rs ctx = (r, h')"
  shows "wf_heap h' \<and> preserved h h' \<and> (\<forall>nb. r = Inr nb \<longrightarrow> fresh_storage h nb)"
proof -
  obtain copy h1 where sc: "h_sorted_copy h rs = (copy, h1)"
    by (cases "h_sorted_copy h rs")
  let ?keeps = "keep_walk (buffer_of h1 b) (regions_at h1 copy)"
  let ?n = "length (obj_channels b)"
  obtain r2 h2 where cb: "h_createBuffer h1 ctx ?n (newLength ?keeps) (obj_sampleRate b) = (r2, h2)"
    by (cases "h_createBuffer h1 ctx ?n (newLength ?keeps) (obj_sampleRate b)")
  note fr = reconstruction_frame [OF assms(1) sc cb, of b ?keeps]
  show ?thesis
  proof (cases r2)
    case (Inl e)
    with assms(2) sc cb have "h' = h2" and "r = Inl e"
      by (simp_all add: h_createProcessedBuffer_def Let_def)
    with fr show ?thesis by simp
  next
    case (Inr newBuffer)
    let ?cc = "h_copy_channels h2 b ?keeps ?n 0 newBuffer"
    from assms(2) sc cb Inr have "h' = snd ?cc" and "\<And>nb. r = Inr nb \<Longrightarrow> nb = newBuffer"
      by (auto simp: h_createProcessedBuffer_def Let_def split: prod.splits sum.splits)
    with fr Inr show ?thesis by auto
  qed
qed

lemma h_processAudio_newBuffer_frame:
  assumes "wf_heap h" and "h_processAudio_newBuffer h b rs = (r, h')"
  shows "wf_heap h' \<and> preserved h h' \<and> (\<forall>nb len. r = Inr (nb, len) \<longrightarrow> fresh_storage h nb)"
proof -
  obtain copy h1 where sc: "h_sorted_copy h rs = (copy, h1)"
    by (cases "h_sorted_copy h rs")
  let ?keeps = "keep_walk (buffer_of h1 b) (regions_at h1 copy)"
  let ?n = "length (obj_channels b)"
  obtain r2 h2 where cb: "h_createBuffer h1 \<lparr>context_sampleRate = 0\<rparr> ?n (newLength ?keeps)
      (obj_sampleRate b) = (r2, h2)"
    by (cases "h_createBuffer h1 \<lparr>context_sampleRate = 0\<rparr> ?n (newLength ?keeps) (obj_sampleRate b)")
  then have nb: "h_new_AudioBuffer h1 \<lparr>opt_length = newLength ?keeps, opt_numberOfChannels = ?n,
      opt_sampleRate = obj_sampleRate b\<rparr> = (r2, h2)"
    by (simp add: h_new_AudioBuffer_createBuffer [of _ _ _ _ "\<lparr>context_sampleRate = 0\<rparr>"])
  note fr = reconstruction_frame [OF assms(1) sc cb, of b ?keeps]
  show ?thesis
  proof (cases r2)
    case (Inl e)
    with assms(2) sc nb have "h' = h2" and "r = Inl e"
      by (simp_all add: h_processAudio_newBuffer_def Let_def)
    with fr show ?thesis by simp
  next
    case (Inr newBuffer)
    let ?cc = "h_copy_channels h2 b ?keeps ?n 0 newBuffer"
    from assms(2) sc nb Inr have "h' = snd ?cc"
      and "\<And>nb len. r = Inr (nb, len) \<Longrightarrow> nb = newBuffer"
      by (auto simp: h_processAudio_newBuffer_def Let_def split: prod.splits sum.splits)
    with fr Inr show ?thesis by auto
  qed
qed

lemma h_analyzeSilence_frame:
  assumes "wf_heap h"
  shows "preserved h (snd (h_analyzeSilence h b minDuration))"
proof (cases "analyzeSilence (buffer_of h b) minDuration")
  case (Inl e)
  then show ?thesis by (simp add: h_analyzeSilence_def preserved_refl)
next
  case (Inr silenceRegions)
  obtain a h' where al: "alloc_regions h silenceRegions = (a, h')"
    by (cases "alloc_regions h silenceRegions")
  with Inr alloc_regions_props(2) [OF assms al] show ?thesis
    by (simp add: h_analyzeSilence_def)
qed

lemma h_bufferToWav_frame:
  assumes "wf_heap h"
  shows "preserved h (snd (h_bufferToWav h b len))"
proof -
  let ?zeros = "replicate (len * length (obj_channels b) * 2 + 44) (0 :: byte)"
  obtain a h1 where al: "alloc_array_buffer h ?zeros = (a, h1)"
    by (cases "alloc_array_buffer h ?zeros")
  note p = alloc_array_buffer_props [OF assms al]
  show ?thesis
  proof (cases "bufferToWav (buffer_of h1 b) len")
    case (Inl e)
    with al p(2) show ?thesis by (simp add: h_bufferToWav_def)
  next
    case (Inr bytes)
    from p(2,3) have "preserved h (h1\<lparr>array_buffers := (array_buffers h1)(a \<mapsto> bytes)\<rparr>)"
      unfolding preserved_def map_le_def by auto
    with al Inr show ?thesis by (simp add: h_bufferToWav_def)
  qed
qed

lemma h_processAudio_frame:
  assumes "wf_heap h"
  shows "preserved h (snd (h_processAudio h b rs))"
proof -
  obtain r h1 where nb: "h_processAudio_newBuffer h b rs = (r, h1)"
    by (cases "h_processAudio_newBuffer h b rs")
  from h_processAudio_newBuffer_frame [OF assms nb]
  have wf1: "wf_heap h1" and pr1: "preserved h h1" by simp_all
  show ?thesis
  proof (cases r)
    case (Inl e)
    with nb pr1 show ?thesis by (simp add: h_processAudio_def)
  next
    case (Inr p)
    obtain newBuffer len where p: "p = (newBuffer, len)" by (cases p)
    from pr1 h_bufferToWav_frame [OF wf1, of newBuffer "nat len"]
    have "preserved h (snd (h_bufferToWav h1 newBuffer (nat len)))"
      by (rule preserved_trans)
    with nb Inr p show ?thesis by (simp add: h_processAudio_def)
  qed
qed

text \<open>
  Claim C8. In a well-formed store that holds the input buffer and the caller's list of
  regions, each of \<^verbatim>\<open>analyzeSilence\<close>, \<^verbatim>\<open>bufferToWav\<close>, \<^verbatim>\<open>createProcessedBuffer\<close> and
  \<^verbatim>\<open>processAudio\<close> leaves the inputs as they were, whether it returns or raises: the
  buffer (samples of every channel, length, channel count, sample rate) and the list of
  regions with its order, since \<^verbatim>\<open>sort\<close> runs on a copy. The channel arrays of a
  reconstructed buffer are at addresses that no array of the store had before the call,
  so they share no storage with the original.
\<close>

theorem core_operations_leave_inputs_unchanged:
  assumes "wf_heap h" and "allocated h b rs"
  shows "inputs_unchanged h (snd (h_analyzeSilence h b minDuration)) b rs \<and>
         inputs_unchanged h (snd (h_bufferToWav h b len)) b rs \<and>
         inputs_unchanged h (snd (h_createProcessedBuffer h b rs ctx)) b rs \<and>
         inputs_unchanged h (snd (h_processAudio h b rs)) b rs \<and>
         (\<forall>nb. fst (h_createProcessedBuffer h b rs ctx) = Inr nb \<longrightarrow> fresh_storage h nb) \<and>
         (\<forall>nb n. fst (h_processAudio_newBuffer h b rs) = Inr (nb, n) \<longrightarrow> fresh_storage h nb)"
proof -
  have 1: "preserved h (snd (h_createProcessedBuffer h b rs ctx))"
    and 2: "\<forall>nb. fst (h_createProcessedBuffer h b rs ctx) = Inr nb \<longrightarrow> fresh_storage h nb"
    using h_createProcessedBuffer_frame [OF assms(1), of b rs ctx] 
    by (simp_all add: prod_eq_iff)
  have 3: "\<forall>nb n. fst (h_processAudio_newBuffer h b rs) = Inr (nb, n) \<longrightarrow> fresh_storage h nb"
    using h_processAudio_newBuffer_frame [OF assms(1), of b rs]
    by (simp add: prod_eq_iff)
  from 1 2 3 h_analyzeSilence_frame [OF assms(1)] h_bufferToWav_frame [OF assms(1)]
    h_processAudio_frame [OF assms(1)]
  show ?thesis
    by (simp add: preserved_inputs_unchanged [OF _ assms(2)])
qed

lemma wf_demo_heap: "wf_heap demo_heap"
  by (auto simp: wf_heap_def demo_heap_def)

lemma allocated_demo: "allocated demo_heap demo_obj 3"
  by (simp add: allocated_def demo_heap_def demo_obj_def)

text \<open>
  A run on the store: the region \<open>[1, 2)\<close> is cut out of a buffer of two frames. The
  sorted copy of the regions is allocated at address 4 and the new channel at address 5;
  the arrays at the addresses 2 and 3 are as before.
\<close>

lemma h_createProcessedBuffer_demo:
  "h_createProcessedBuffer demo_heap demo_obj 3 demo_context =
     (Inr \<lparr>obj_sampleRate = 8000, obj_length = 1, obj_channels = [5]\<rparr>,
      \<lparr>arrays = [2 \<mapsto> [0.5, 0.25], 5 \<mapsto> [0.5]],
       region_lists = [3 \<mapsto> [\<lparr>start_s = 1 / 8000, end_s = 1 / 4000\<rparr>],
                       4 \<mapsto> [\<lparr>start_s = 1 / 8000, end_s = 1 / 4000\<rparr>]],
       array_buffers = Map.empty, next_addr = 6\<rparr>)"
  by (simp add: h_createProcessedBuffer_def h_sorted_copy_def alloc_regions_def demo_heap_def
      demo_obj_def regions_at_def keep_walk_def buffer_of_def array_at_def newLength_def
      h_createBuffer_def alloc_array_def h_copy_channels.simps h_getChannelData_def
      h_subarray_def relative_index_def h_set_def view_contents_def set_at_def double_eval)

theorem core_operations_leave_inputs_unchanged_witness:
  "wf_heap demo_heap \<and> allocated demo_heap demo_obj 3 \<and>
   inputs_unchanged demo_heap (snd (h_createProcessedBuffer demo_heap demo_obj 3 demo_context))
     demo_obj 3 \<and>
   fresh_storage demo_heap \<lparr>obj_sampleRate = 8000, obj_length = 1, obj_channels = [5]\<rparr>"
  using core_operations_leave_inputs_unchanged [OF wf_demo_heap allocated_demo, of 0 0 demo_context]
    wf_demo_heap allocated_demo
  by (simp add: h_createProcessedBuffer_demo)

subsection \<open>The store model computes what the value model computes\<close>

lemma view_contents_subarray:
  "view_contents h (h_subarray h a s e) = subarray (array_at h a) s e"
  by (simp add: view_contents_def h_subarray_def subarray_def Let_def)

lemma h_copy_regions_refines:
  assumes "oldData \<noteq> newData"
  shows "(case copy_regions (array_at h oldData) keeps pointer (array_at h newData) of
            Inl e \<Rightarrow> fst (h_copy_regions h oldData keeps pointer newData) = Inl e
          | Inr xs \<Rightarrow>
              fst (h_copy_regions h oldData keeps pointer newData) = Inr () \<and>
              array_at (snd (h_copy_regions h oldData keeps pointer newData)) newData = xs)"
proof (induction keeps arbitrary: h pointer)
  case Nil
  show ?case by simp
next
  case (Cons reg keeps)
  let ?chunk = "subarray (array_at h oldData) (fst reg) (snd reg)"
  show ?case
  proof (cases "set_at (array_at h newData) ?chunk pointer")
    case (Inl e)
    then show ?thesis
      by (simp add: Let_def h_set_def view_contents_subarray)
  next
    case (Inr xs)
    let ?h1 = "h\<lparr>arrays := (arrays h)(newData \<mapsto> xs)\<rparr>"
    from assms have old: "array_at ?h1 oldData = array_at h oldData"
      and new: "array_at ?h1 newData = xs"
      by (simp_all add: array_at_def)
    from Inr have h_step: "h_copy_regions h oldData (reg # keeps) pointer newData =
        h_copy_regions ?h1 oldData keeps (pointer + (snd reg - fst reg)) newData"
      by (simp add: Let_def h_set_def view_contents_subarray)
    from Inr have step: "copy_regions (array_at h oldData) (reg # keeps) pointer (array_at h newData) =
        copy_regions (array_at ?h1 oldData) keeps (pointer + (snd reg - fst reg))
          (array_at ?h1 newData)"
      by (simp add: Let_def old new)
    show ?thesis
      unfolding h_step step by (rule Cons.IH)
  qed
qed


lemma modifies_only_array_at:
  "modifies_only T h h' \<Longrightarrow> a \<notin> T \<Longrightarrow> array_at h' a = array_at h a"
  by (simp add: modifies_only_def array_at_def)

lemma getChannelData_buffer_of:
  "getChannelData (buffer_of h b) c =
     (case h_getChannelData b c of Inl e \<Rightarrow> Inl e | Inr a \<Rightarrow> Inr (array_at h a))"
  by (simp add: getChannelData_def h_getChannelData_def numberOfChannels_def buffer_of_def)

lemma buffer_of_update:
  assumes "distinct (obj_channels nb)" and "c < length (obj_channels nb)"
    and "modifies_only {obj_channels nb ! c} h h'"
  shows "buffer_of h' nb =
           (buffer_of h nb)\<lparr>channelData :=
              (channelData (buffer_of h nb))[c := array_at h' (obj_channels nb ! c)]\<rparr>"
proof -
  have "map (array_at h') (obj_channels nb) =
        (map (array_at h) (obj_channels nb))[c := array_at h' (obj_channels nb ! c)]"
  proof (rule nth_equalityI)
    fix i assume "i < length (map (array_at h') (obj_channels nb))"
    then have i: "i < length (obj_channels nb)" by simp
    show "map (array_at h') (obj_channels nb) ! i =
          (map (array_at h) (obj_channels nb))[c := array_at h' (obj_channels nb ! c)] ! i"
    proof (cases "i = c")
      case True
      with i show ?thesis by simp
    next
      case False
      with assms(1,2) i have "obj_channels nb ! i \<noteq> obj_channels nb ! c"
        by (simp add: nth_eq_iff_index_eq)
      with assms(3) have "array_at h' (obj_channels nb ! i) = array_at h (obj_channels nb ! i)"
        by (simp add: modifies_only_array_at)
      with False i show ?thesis by simp
    qed
  qed simp
  then show ?thesis
    by (simp add: buffer_of_def)
qed

lemma buffer_of_unchanged:
  assumes "modifies_only T h h'" and "T \<inter> set (obj_channels b) = {}"
  shows "buffer_of h' b = buffer_of h b"
proof -
  from assms(2) have "\<forall>a \<in> set (obj_channels b). a \<notin> T"
    by blast
  with assms(1) have "\<forall>a \<in> set (obj_channels b). array_at h' a = array_at h a"
    by (simp add: modifies_only_array_at)
  then show ?thesis
    by (simp add: buffer_of_def)
qed

lemma h_copy_channels_refines:
  assumes "distinct (obj_channels nb)" and "set (obj_channels nb) \<inter> set (obj_channels b) = {}"
  shows "(case copy_channels (buffer_of h b) keeps n c (buffer_of h nb) of
            Inl e \<Rightarrow> fst (h_copy_channels h b keeps n c nb) = Inl e
          | Inr v \<Rightarrow>
              fst (h_copy_channels h b keeps n c nb) = Inr () \<and>
              buffer_of (snd (h_copy_channels h b keeps n c nb)) nb = v)"
  using assms
proof (induction h b keeps n c nb rule: h_copy_channels.induct)
  case (1 h b keeps n c nb)
  show ?case
  proof (cases "c < n")
    case False
    then show ?thesis
      by (simp add: copy_channels.simps [of _ keeps n c] h_copy_channels.simps [of h b keeps n c])
  next
    case True
    show ?thesis
    proof (cases "h_getChannelData b c")
      case (Inl e)
      with True show ?thesis
        by (simp add: copy_channels.simps [of _ keeps n c] h_copy_channels.simps [of h b keeps n c]
            getChannelData_buffer_of)
    next
      case old: (Inr oldData)
      show ?thesis
      proof (cases "h_getChannelData nb c")
        case (Inl e)
        with True old show ?thesis
          by (simp add: copy_channels.simps [of _ keeps n c]
              h_copy_channels.simps [of h b keeps n c] getChannelData_buffer_of)
      next
        case new: (Inr newData)
        from old have o: "oldData \<in> set (obj_channels b)"
          by (auto simp: h_getChannelData_def split: if_splits)
        from new have c: "c < length (obj_channels nb)" and n: "newData = obj_channels nb ! c"
          by (auto simp: h_getChannelData_def split: if_splits)
        with o 1(3) have ne: "oldData \<noteq> newData"
          by (metis disjoint_iff nth_mem)
        obtain r h1 where copy: "h_copy_regions h oldData keeps 0 newData = (r, h1)"
          by (cases "h_copy_regions h oldData keeps 0 newData")
        have m: "modifies_only {newData} h h1"
          using h_copy_regions_modifies [of newData h oldData keeps 0] copy by simp
        note ref = h_copy_regions_refines [OF ne, of h keeps 0, unfolded copy fst_conv snd_conv]
        show ?thesis
        proof (cases "copy_regions (array_at h oldData) keeps 0 (array_at h newData)")
          case (Inl e)
          with ref have "r = Inl e" by simp
          with True old new copy Inl show ?thesis
            by (simp add: copy_channels.simps [of _ keeps n c]
                h_copy_channels.simps [of h b keeps n c] getChannelData_buffer_of)
        next
          case (Inr xs)
          with ref have r: "r = Inr ()" and xs: "array_at h1 newData = xs" by simp_all
          from c n have "newData \<in> set (obj_channels nb)" by simp
          with 1(3) have "{newData} \<inter> set (obj_channels b) = {}" by blast
          with m have b1: "buffer_of h1 b = buffer_of h b"
            by (rule buffer_of_unchanged)
          from 1(2) c m have nb1: "buffer_of h1 nb =
              (buffer_of h nb)\<lparr>channelData := (channelData (buffer_of h nb))[c := xs]\<rparr>"
            unfolding n xs [symmetric, unfolded n] by (rule buffer_of_update)
          have h_step: "h_copy_channels h b keeps n c nb = h_copy_channels h1 b keeps n (c + 1) nb"
            using True old new copy r
            by (simp add: h_copy_channels.simps [of h b keeps n c])
          have step: "copy_channels (buffer_of h b) keeps n c (buffer_of h nb) =
              copy_channels (buffer_of h1 b) keeps n (c + 1) (buffer_of h1 nb)"
            using True old new Inr
            by (simp add: copy_channels.simps [of _ keeps n c] getChannelData_buffer_of b1 nb1)
          show ?thesis
            unfolding h_step step
            by (rule 1(1) [OF True old new copy [symmetric, unfolded r] refl 1(2,3)])
        qed
      qed
    qed
  qed
qed


lemma preserved_array_at:
  "preserved h h' \<Longrightarrow> a \<in> dom (arrays h) \<Longrightarrow> array_at h' a = array_at h a"
  unfolding preserved_def map_le_def array_at_def by metis

lemma alloc_channels_contents:
  assumes "wf_heap h" and "alloc_channels h n len = (as, h')"
  shows "distinct as \<and> map (array_at h') as = replicate n (replicate len 0)"
  using assms
proof (induction n arbitrary: h as h')
  case 0
  then show ?case by simp
next
  case (Suc n)
  obtain a h1 where a: "alloc_array h (replicate len 0) = (a, h1)"
    by (cases "alloc_array h (replicate len 0)")
  obtain as' h2 where as': "alloc_channels h1 n len = (as', h2)"
    by (cases "alloc_channels h1 n len")
  from Suc.prems(2) a as' have res: "as = a # as'" "h' = h2" by simp_all
  note pa = alloc_array_props [OF Suc.prems(1) a]
  note pc = alloc_channels_props [OF pa(1) as']
  from pa(5) have dom_a: "a \<in> dom (arrays h1)" by simp
  with pc have "a \<notin> set as'" by blast
  moreover from a have "array_at h1 a = replicate len 0"
    by (auto simp: alloc_array_def array_at_def)
  moreover from pc have "preserved h1 h2" by simp
  then have "array_at h2 a = array_at h1 a"
    using dom_a by (rule preserved_array_at)
  ultimately show ?case
    using Suc.IH [OF pa(1) as'] unfolding res by simp
qed

lemma preserved_buffer_of:
  assumes "preserved h h'" and "set (obj_channels b) \<subseteq> dom (arrays h)"
  shows "buffer_of h' b = buffer_of h b"
proof -
  from assms have "\<forall>a \<in> set (obj_channels b). array_at h' a = array_at h a"
    by (auto intro: preserved_array_at)
  then show ?thesis
    by (simp add: buffer_of_def)
qed

lemma h_createBuffer_refines:
  assumes "wf_heap h" and "h_createBuffer h ctx n len rate = (r, h')"
  shows "(case createBuffer ctx n len rate of
            Inl e \<Rightarrow> r = Inl e
          | Inr v \<Rightarrow> (\<exists>nb. r = Inr nb \<and> buffer_of h' nb = v \<and> distinct (obj_channels nb)))"
proof (cases "n = 0 \<or> len \<le> 0 \<or> rate = 0")
  case True
  with assms(2) show ?thesis
    by (auto simp: h_createBuffer_def createBuffer_def)
next
  case False
  obtain as h2 where al: "alloc_channels h n (nat len) = (as, h2)"
    by (cases "alloc_channels h n (nat len)")
  with False assms(2) have "h' = h2"
    and "r = Inr \<lparr>obj_sampleRate = rate, obj_length = nat len, obj_channels = as\<rparr>"
    by (auto simp: h_createBuffer_def)
  with False alloc_channels_contents [OF assms(1) al] show ?thesis
    by (simp add: createBuffer_def buffer_of_def)
qed

text \<open>
  The reconstruction on the store computes what \<open>createProcessedBuffer\<close> computes on
  values: the same error, or a buffer object whose contents in the final store are the
  buffer returned on values.
\<close>

lemma h_createProcessedBuffer_refines:
  assumes wf: "wf_heap h" and al: "allocated h b rs"
  shows "(case createProcessedBuffer (buffer_of h b) (regions_at h rs) ctx of
            Inl e \<Rightarrow> fst (h_createProcessedBuffer h b rs ctx) = Inl e
          | Inr v \<Rightarrow>
              (\<exists>nb. fst (h_createProcessedBuffer h b rs ctx) = Inr nb \<and>
                    buffer_of (snd (h_createProcessedBuffer h b rs ctx)) nb = v))"
proof -
  obtain copy h1 where sc: "h_sorted_copy h rs = (copy, h1)"
    by (cases "h_sorted_copy h rs")
  note p1 = h_sorted_copy_props [OF wf sc]
  have b1: "buffer_of h1 b = buffer_of h b"
    by (simp add: buffer_of_def array_at_def p1(3))
  let ?keeps = "keep_regions (buffer_of h b) (regions_at h rs)"
  have keeps: "keep_walk (buffer_of h1 b) (regions_at h1 copy) = ?keeps"
    by (simp add: keep_regions_def b1 p1(4))
  let ?n = "length (obj_channels b)"
  have n: "numberOfChannels (buffer_of h b) = ?n"
    by (simp add: numberOfChannels_def buffer_of_def)
  obtain r2 h2 where cb: "h_createBuffer h1 ctx ?n (newLength ?keeps) (obj_sampleRate b) = (r2, h2)"
    by (cases "h_createBuffer h1 ctx ?n (newLength ?keeps) (obj_sampleRate b)")
  note p2 = h_createBuffer_props [OF p1(1) cb]
  note ref2 = h_createBuffer_refines [OF p1(1) cb]
  have rate: "sampleRate (buffer_of h b) = obj_sampleRate b"
    by (simp add: buffer_of_def)
  show ?thesis
  proof (cases "createBuffer ctx ?n (newLength ?keeps) (obj_sampleRate b)")
    case (Inl e)
    with ref2 have "r2 = Inl e" by simp
    with Inl sc cb show ?thesis
      by (simp add: createProcessedBuffer_def h_createProcessedBuffer_def Let_def keeps n rate)
  next
    case (Inr v)
    with ref2 obtain nb where r2: "r2 = Inr nb" and v: "buffer_of h2 nb = v"
      and dist: "distinct (obj_channels nb)"
      by auto
    from p2 r2 have fresh: "fresh_storage h1 nb" and pr: "preserved h1 h2" by simp_all
    from al have "set (obj_channels b) \<subseteq> dom (arrays h1)"
      by (simp add: allocated_def p1(3))
    with fresh have disj: "set (obj_channels nb) \<inter> set (obj_channels b) = {}"
      unfolding fresh_storage_def by blast
    from pr \<open>set (obj_channels b) \<subseteq> dom (arrays h1)\<close> have "buffer_of h2 b = buffer_of h1 b"
      by (rule preserved_buffer_of)
    then have b2: "buffer_of h2 b = buffer_of h b"
      by (simp add: b1)
    let ?cc = "h_copy_channels h2 b ?keeps ?n 0 nb"
    note ref3 = h_copy_channels_refines [OF dist disj, of h2 ?keeps ?n 0, unfolded b2 v]
    have pure: "createProcessedBuffer (buffer_of h b) (regions_at h rs) ctx =
        copy_channels (buffer_of h b) ?keeps ?n 0 v"
      using Inr by (simp add: createProcessedBuffer_def Let_def n rate)
    have store: "h_createProcessedBuffer h b rs ctx =
        (case ?cc of (Inl e, h3) \<Rightarrow> (Inl e, h3) | (Inr u, h3) \<Rightarrow> (Inr nb, h3))"
      using sc cb r2 by (simp add: h_createProcessedBuffer_def Let_def keeps)
    show ?thesis
      unfolding pure store using ref3
      by (cases ?cc) (auto split: sum.splits)
  qed
qed

end
